theory Spec2Isabelle
  imports Complex_Main "HOL-Library.Word" "HOL-Library.Multiset" "HOL-Library.Code_Target_Nat"
begin

unbundle bit_operations_syntax

section \<open>JavaScript numbers\<close>

text \<open>
  The program is TypeScript. Its numbers are IEEE doubles; the integers it computes with
  are doubles holding an integer value. A nonnegative integer below \<open>2 ^ 53\<close> is a
  double as it stands; a larger one is rounded to 53 significant bits, ties to even.
  \<open>bitlen\<close> is the number of binary digits and \<open>dbl_round\<close> that rounding, on
  nonnegative integers (overflow to infinity starts at \<open>2 ^ 1024\<close> and is not
  reached by anything below).
\<close>

type_synonym u32 = "32 word"

fun bitlen :: "nat \<Rightarrow> nat" where
  "bitlen n = (if n = 0 then 0 else Suc (bitlen (n div 2)))"

declare bitlen.simps [simp del]

definition dbl_round :: "nat \<Rightarrow> nat" where
  "dbl_round x =
     (if x < 2 ^ 53 then x
      else let e = bitlen x - 53;
               q = x div 2 ^ e;
               r = x mod 2 ^ e;
               h = 2 ^ (e - 1)
           in if r < h \<or> (r = h \<and> even q) then q * 2 ^ e else (q + 1) * 2 ^ e)"

text \<open>
  A double in \<open>[0,1)\<close> is \<open>m / 2 ^ e\<close> for an integer \<open>m\<close> below \<open>2 ^ 53\<close>
  and an exponent \<open>e\<close> of at most 1074 (zero, the subnormal and the normal numbers),
  and every such quotient below 1 is a double: the pair \<open>(m, e)\<close> stands for it.
\<close>

type_synonym dbl = "nat \<times> nat"

fun unit_double :: "dbl \<Rightarrow> bool" where
  "unit_double (m, e) = (m < 2 ^ 53 \<and> m < 2 ^ e \<and> e \<le> 1074)"

text \<open>
  \<open>Math.floor(x * k)\<close> for such a double \<open>x\<close> and an integer \<open>k\<close> below
  \<open>2 ^ 53\<close>. The product in doubles is the exact product \<open>m * k / 2 ^ e\<close>
  rounded to 53 significant bits (a product in the subnormal range is a multiple of
  \<open>2 ^ -1074\<close> and exact, with \<open>m * k\<close> below \<open>2 ^ 53\<close>), and its floor is the
  integer quotient by \<open>2 ^ e\<close>.
\<close>

fun floor_product :: "dbl \<Rightarrow> nat \<Rightarrow> nat" where
  "floor_product (m, e) k = dbl_round (m * k) div 2 ^ e"

text \<open>\<open>Math.imul\<close>: the low 32 bits of the product.\<close>

definition imul :: "u32 \<Rightarrow> u32 \<Rightarrow> u32" where
  "imul a b = a * b"

section \<open>The mulberry32 generator (util.ts, \<open>mulberry32\<close>)\<close>

text \<open>
  \<^verbatim>\<open>
  function mulberry32(seed:number):() => number {
    return () => {
      let t = seed += 0x6D2B79F5;
      t = Math.imul(t^t>>>15, t|1);
      t ^= t + Math.imul(t^t>>>7, t|61);
      return ((t^t>>>14)>>>0)/4294967296;
    };
  }
  \<close>
  The closure's state is the variable \<open>seed\<close>, a JavaScript number, and
  \<open>seed += 0x6D2B79F5\<close> is an addition of doubles: the state is not reduced modulo
  \<open>2 ^ 32\<close>. The bitwise operators and \<open>Math.imul\<close> convert their operands with
  ToInt32/ToUint32, that is modulo \<open>2 ^ 32\<close>; \<open>>>>\<close> binds tighter than \<open>^\<close>
  and is the logical shift; \<open>t + Math.imul(...)\<close> is exact in doubles and reduced
  modulo \<open>2 ^ 32\<close> by the \<open>^=\<close> that consumes it. One call takes the state and
  returns the final unsigned 32-bit integer together with the new state.
\<close>

definition mulberry32_bits :: "nat \<Rightarrow> u32 \<times> nat" where
  "mulberry32_bits seed =
     (let seed' = dbl_round (seed + 0x6D2B79F5);
          t = (word_of_nat seed' :: u32);
          t = imul (t XOR drop_bit 15 t) (t OR 1);
          t = t XOR (t + imul (t XOR drop_bit 7 t) (t OR 61))
      in (t XOR drop_bit 14 t, seed'))"

text \<open>The number returned by a call: that integer divided by \<open>4294967296\<close>.\<close>

definition mulberry32 :: "nat \<Rightarrow> real \<times> nat" where
  "mulberry32 seed =
     (let (w, seed') = mulberry32_bits seed in (real (unat w) / 4294967296, seed'))"

text \<open>The values returned by \<open>k\<close> successive calls of one generator.\<close>

fun mulberry32_outputs :: "nat \<Rightarrow> nat \<Rightarrow> real list" where
  "mulberry32_outputs 0 seed = []"
| "mulberry32_outputs (Suc k) seed =
     (let (x, seed') = mulberry32 seed in x # mulberry32_outputs k seed')"

text \<open>The state a generator holds after \<open>k\<close> calls.\<close>

fun mulberry32_state :: "nat \<Rightarrow> nat \<Rightarrow> nat" where
  "mulberry32_state 0 seed = seed"
| "mulberry32_state (Suc k) seed = mulberry32_state k (snd (mulberry32 seed))"

text \<open>
  \<open>Math.floor(mulberry32_rand()*k)\<close> for an integer \<open>k\<close> below \<open>2 ^ 53\<close>. The
  generator's value \<open>w / 2 ^ 32\<close> and \<open>k\<close> are doubles; their product in doubles is
  the exact product \<open>w * k / 2 ^ 32\<close> rounded to 53 significant bits, and the floor
  of that is the integer quotient by \<open>2 ^ 32\<close>.
\<close>

definition mulberry32_index :: "nat \<Rightarrow> nat \<Rightarrow> nat \<times> nat" where
  "mulberry32_index k seed =
     (let (w, seed') = mulberry32_bits seed in (dbl_round (unat w * k) div 2 ^ 32, seed'))"

subsection \<open>The generator as the specification words it\<close>

text \<open>
  The specification's generator: the state is one 32-bit word, the increment is added
  modulo \<open>2 ^ 32\<close>, and every intermediate value is a 32-bit word.
  \<open>mulberry32_mix\<close> is its mixing: two rounds of multiply, xor and shift, and the
  final xor-shift.
\<close>

definition mulberry32_mix :: "u32 \<Rightarrow> u32" where
  "mulberry32_mix state =
     (let t = (state XOR drop_bit 15 state) * (state OR 1);
          t = t XOR (t + (t XOR drop_bit 7 t) * (t OR 61))
      in t XOR drop_bit 14 t)"

definition mulberry32_u32 :: "u32 \<Rightarrow> real \<times> u32" where
  "mulberry32_u32 state =
     (let state' = state + 0x6D2B79F5
      in (real (unat (mulberry32_mix state')) / 2 ^ 32, state'))"

fun mulberry32_u32_outputs :: "nat \<Rightarrow> u32 \<Rightarrow> real list" where
  "mulberry32_u32_outputs 0 state = []"
| "mulberry32_u32_outputs (Suc k) state =
     (let (x, state') = mulberry32_u32 state in x # mulberry32_u32_outputs k state')"

section \<open>Array builders (util.ts, \<open>arrayFillA\<close>, \<open>arrayFillB\<close>)\<close>

text \<open>
  \<open>Array.from({ length:n })\<close> raises a RangeError for a length above
  \<open>2 ^ 32 - 1\<close> and otherwise makes an array of \<open>n\<close> elements, each
  \<open>undefined\<close>. \<open>new Uint32Array(n)\<close> raises a RangeError when its \<open>4 * n\<close>
  bytes are more than \<open>2 ^ 53 - 1\<close>, that is from \<open>n = 2 ^ 51\<close> on, and otherwise
  makes \<open>n\<close> zeros (running out of memory is left out of the model). An element of
  a \<open>number[]\<close> is a \<open>nat option\<close>, with \<open>None\<close> for \<open>undefined\<close>; an element of
  a \<open>Uint32Array\<close> is a 32-bit word, and a store reduces the number stored modulo
  \<open>2 ^ 32\<close>. The size \<open>n\<close> is a nonnegative integer, as every caller in the
  repository passes.
\<close>

datatype error = RangeError

text \<open>\<^verbatim>\<open>return () => Array.from({ length:n }, (_, i) => i);\<close>\<close>

definition arrayFillA :: "nat \<Rightarrow> error + nat option list" where
  "arrayFillA n =
     (if 4294967295 < n then Inl RangeError else Inr (map (\<lambda>i. Some i) [0..<n]))"

text \<open>
  \<^verbatim>\<open>
  const a:number[] = Array.from({ length:n });
  for(let i=0;i<n;++i)
    a[i] = i+1;
  return a;
  \<close>
\<close>

definition arrayFillB :: "nat \<Rightarrow> error + nat option list" where
  "arrayFillB n =
     (if 4294967295 < n then Inl RangeError
      else let a = replicate n None;
               a = fold (\<lambda>i a. a[i := Some (i + 1)]) [0..<n] a
           in Inr a)"

section \<open>The swap shuffles (util.ts, \<open>AFB_x_AS\<close> and its variants)\<close>

text \<open>
  \<^verbatim>\<open>
  for(let i=n-1;i>0;--i) {
    const j = Math.floor(Math.random()*(i+1));
    let t = a[i];
    a[i] = a[j];
    a[j] = t;
  }
  \<close>
  \<open>AFB_x_AS\<close> and \<open>AFB_x_AS_x_OPT\<close> hold this loop word for word, but for the
  random source: \<open>Math.random()\<close> in the first, \<open>mulberry32_rand()\<close> in the second.
  \<open>swap_loop\<close> is the loop from index \<open>i\<close> down to 1, over the function
  \<open>rand_index\<close> that stands for \<open>Math.floor(<source>()*k)\<close> and threads the
  source's state. The source returns a number in \<open>[0,1)\<close>, so that \<open>j \<le> i\<close> and
  both indices are inside the array.
\<close>

fun swap_loop :: "(nat \<Rightarrow> 's \<Rightarrow> nat \<times> 's) \<Rightarrow> nat \<Rightarrow> 'a list \<Rightarrow> 's \<Rightarrow> 'a list \<times> 's" where
  "swap_loop rand_index 0 a s = (a, s)"
| "swap_loop rand_index (Suc i') a s =
     (let i = Suc i';
          (j, s') = rand_index (i + 1) s;
          t = a ! i;
          a = a[i := a ! j];
          a = a[j := t]
      in swap_loop rand_index i' a s')"

text \<open>
  \<open>Math.random\<close> is the engine's: it is a parameter \<open>random\<close>, a function from the
  engine's hidden state to the double drawn and the next state.
  \<open>math_random_index\<close> is \<open>Math.floor(Math.random()*k)\<close>, the floor of the
  product in doubles.
\<close>

definition math_random_index :: "('s \<Rightarrow> dbl \<times> 's) \<Rightarrow> nat \<Rightarrow> 's \<Rightarrow> nat \<times> 's" where
  "math_random_index random k s = (let (x, s') = random s in (floor_product x k, s'))"

text \<open>
  \<^verbatim>\<open>
  const a:number[] = Array.from({ length:n });
  for(let i=0;i<n;++i)
    a[i] = i+1;
  for(let i=n-1;i>0;--i) { ... Math.random() ... }
  return a;
  \<close>
\<close>

definition AFB_x_AS :: "('s \<Rightarrow> dbl \<times> 's) \<Rightarrow> nat \<Rightarrow> 's \<Rightarrow> error + nat option list \<times> 's" where
  "AFB_x_AS random n s =
     (if 4294967295 < n then Inl RangeError
      else let a = replicate n None;
               a = fold (\<lambda>i a. a[i := Some (i + 1)]) [0..<n] a
           in Inr (swap_loop (math_random_index random) (n - 1) a s))"

text \<open>
  \<^verbatim>\<open>
  const a = new Uint32Array(n);
  for(let i=0;i<n;++i) a[i] = i+1;
  for(let i=n-1;i>0;--i) { ... mulberry32_rand() ... }
  return a;
  \<close>
  \<open>mulberry32_rand\<close> is the one generator of the process, seeded with
  \<open>Date.now()\<close> when the module loads: the function takes the generator's state at
  the call and returns the state it leaves.
\<close>

definition AFB_x_AS_x_OPT :: "nat \<Rightarrow> nat \<Rightarrow> error + u32 list \<times> nat" where
  "AFB_x_AS_x_OPT n seed =
     (if 2251799813685247 < n then Inl RangeError
      else let a = replicate n 0;
               a = fold (\<lambda>i a. a[i := word_of_nat (i + 1)]) [0..<n] a
           in Inr (swap_loop mulberry32_index (n - 1) a seed))"

text \<open>
  \<^verbatim>\<open>
  const a = new Uint32Array(n);
  for(let i=n-1;i>0;--i) {
    const j = Math.floor(mulberry32_rand()*(i+1));
    let t = a[i]||(i+1);
    a[i] = a[j]||(j+1);
    a[j] = t;
  }
  return a;
  \<close>
  \<open>x||y\<close> is \<open>y\<close> when \<open>x\<close> is zero.
\<close>

fun no_init_loop :: "nat \<Rightarrow> u32 list \<Rightarrow> nat \<Rightarrow> u32 list \<times> nat" where
  "no_init_loop 0 a seed = (a, seed)"
| "no_init_loop (Suc i') a seed =
     (let i = Suc i';
          (j, seed') = mulberry32_index (i + 1) seed;
          t = (if a ! i \<noteq> 0 then unat (a ! i) else i + 1);
          a = a[i := word_of_nat (if a ! j \<noteq> 0 then unat (a ! j) else j + 1)];
          a = a[j := word_of_nat t]
      in no_init_loop i' a seed')"

definition AFB_x_AS_x_OPT_x_NO_INIT :: "nat \<Rightarrow> nat \<Rightarrow> error + u32 list \<times> nat" where
  "AFB_x_AS_x_OPT_x_NO_INIT n seed =
     (if 2251799813685247 < n then Inl RangeError
      else let a = replicate n 0 in Inr (no_init_loop (n - 1) a seed))"

text \<open>
  The buffer that loop means: index \<open>k\<close> holds \<open>k+1\<close> as long as its element is
  zero.
\<close>

definition materialise :: "u32 list \<Rightarrow> u32 list" where
  "materialise a = map (\<lambda>k. if a ! k = 0 then word_of_nat (k + 1) else a ! k) [0..<length a]"

section \<open>The bucket strategy (util.ts, \<open>BucketRadixShuffle\<close>)\<close>

text \<open>
  \<^verbatim>\<open>
  type NumberOrNumberArray = number | number[];

  export function BucketRadixShuffle(m:NumberOrNumberArray[], n:number):() => number[] {
    return () => {
      for(let i=0;i<n;++i) {
        const r = Math.floor(Math.random()*m.length);
        if(!m[r])
          m[r] = i+1;
        else if(!(m[r] instanceof Array))
          m[r] = [m[r], i+1];
        else
          m[r].push(i+1);
      }
      const a:number[] = [];
      for(let i=0;i<m.length;++i) {
        if(m[i]) {
          if(!Array.isArray(m[1]))
            a.push(m[i] as number);
          else
            for(let j=0;j<(m[i] as number[]).length;++j)
              a.push((m[i] as number[])[j]);
        }
      }
      return a;
    };
  };
  \<close>
  A slot of the memory is a number or an array of numbers. The casts \<open>as number\<close> and
  \<open>as number[]\<close> do nothing at run time, so an element pushed to the output is again
  a number or an array of numbers. A number is falsy when it is 0, an array never.
\<close>

datatype slot = Num nat | Arr "nat list"

fun truthy :: "slot \<Rightarrow> bool" where
  "truthy (Num v) = (v \<noteq> 0)"
| "truthy (Arr vs) = True"

text \<open>
  The body of the first loop, for the drawn position \<open>r\<close> and the value
  \<open>v = i+1\<close>. With a draw in \<open>[0,1)\<close> the position is inside the memory, unless the
  memory is empty: then \<open>r = 0\<close>, \<open>m[0]\<close> is \<open>undefined\<close>, and the store makes
  the array one longer (a store further out would leave holes, which read as
  \<open>undefined\<close> and so behave as zeros here).
\<close>

definition bucket_put :: "slot list \<Rightarrow> nat \<Rightarrow> nat \<Rightarrow> slot list" where
  "bucket_put m r v =
     (if r < length m then
        (case m ! r of
           Num x \<Rightarrow> if x = 0 then m[r := Num v] else m[r := Arr [x, v]]
         | Arr xs \<Rightarrow> m[r := Arr (xs @ [v])])
      else m @ replicate (r - length m) (Num 0) @ [Num v])"

definition distribute ::
    "('s \<Rightarrow> dbl \<times> 's) \<Rightarrow> nat \<Rightarrow> slot list \<Rightarrow> 's \<Rightarrow> slot list \<times> 's" where
  "distribute random n m s =
     fold (\<lambda>i (m, s). let (r, s') = math_random_index random (length m) s
                       in (bucket_put m r (i + 1), s'))
       [0..<n] (m, s)"

text \<open>
  \<open>Array.isArray(m[1])\<close> looks at the slot of index 1, whatever the \<open>i\<close> of the
  loop; \<open>m[1]\<close> is \<open>undefined\<close> in a memory of fewer than two slots.
\<close>

definition m1_is_array :: "slot list \<Rightarrow> bool" where
  "m1_is_array m = (1 < length m \<and> (case m ! 1 of Arr vs \<Rightarrow> True | Num v \<Rightarrow> False))"

text \<open>
  The body of the second loop for the slot \<open>x = m[i]\<close>. When \<open>m[1]\<close> is not an
  array, \<open>m[i]\<close> is pushed as it is, array or not. When \<open>m[1]\<close> is an array, the
  elements of \<open>m[i]\<close> are pushed; a number has no \<open>length\<close>, the comparison
  \<open>j < undefined\<close> is false, and nothing is pushed for it.
\<close>

definition collect_slot :: "bool \<Rightarrow> slot \<Rightarrow> slot list \<Rightarrow> slot list" where
  "collect_slot m1 x a =
     (if truthy x then
        (if \<not> m1 then a @ [x]
         else (case x of Arr vs \<Rightarrow> a @ map Num vs | Num v \<Rightarrow> a))
      else a)"

text \<open>The call returns the output array; the memory of the caller is left changed.\<close>

definition BucketRadixShuffle ::
    "('s \<Rightarrow> dbl \<times> 's) \<Rightarrow> slot list \<Rightarrow> nat \<Rightarrow> 's \<Rightarrow> slot list \<times> slot list \<times> 's" where
  "BucketRadixShuffle random m n s =
     (let (m', s') = distribute random n m s;
          a = fold (collect_slot (m1_is_array m')) m' []
      in (a, m', s'))"

text \<open>
  The positions \<open>r\<close> the first loop draws, in the order of the values \<open>1..n\<close>: the
  loop of \<open>distribute\<close>, which also records each \<open>r\<close>. The value \<open>i+1\<close> lands in
  the slot of index \<open>landing_slots random n m s ! i\<close>.
\<close>

definition landing_slots :: "('s \<Rightarrow> dbl \<times> 's) \<Rightarrow> nat \<Rightarrow> slot list \<Rightarrow> 's \<Rightarrow> nat list" where
  "landing_slots random n m s =
     fst (fold (\<lambda>i (rs, m, s). let (r, s') = math_random_index random (length m) s
                              in (rs @ [r], bucket_put m r (i + 1), s'))
            [0..<n] ([], m, s))"

text \<open>
  The numbers of the output array in the order they were written, those of a nested
  array in its place.
\<close>

fun elem_values :: "slot \<Rightarrow> nat list" where
  "elem_values (Num v) = [v]"
| "elem_values (Arr vs) = vs"

definition buffer_values :: "slot list \<Rightarrow> nat list" where
  "buffer_values a = concat (map elem_values a)"

text \<open>\<open>u\<close> is written before \<open>v\<close>: \<open>v\<close> occurs after the first \<open>u\<close>.\<close>

fun appears_before :: "'a \<Rightarrow> 'a \<Rightarrow> 'a list \<Rightarrow> bool" where
  "appears_before u v [] = False"
| "appears_before u v (x # xs) = (if x = u then v \<in> set xs else appears_before u v xs)"

text \<open>
  For the proofs: the slot at a position, empty outside the memory, and what the first
  loop makes of a slot when a value lands in it.
\<close>

definition slot_at :: "slot list \<Rightarrow> nat \<Rightarrow> slot" where
  "slot_at m r = (if r < length m then m ! r else Num 0)"

fun put_slot :: "slot \<Rightarrow> nat \<Rightarrow> slot" where
  "put_slot (Num x) v = (if x = 0 then Num v else Arr [x, v])"
| "put_slot (Arr xs) v = Arr (xs @ [v])"

text \<open>The values a slot holds, in their order: none for an empty slot.\<close>

fun slot_values :: "slot \<Rightarrow> nat list" where
  "slot_values (Num v) = (if v = 0 then [] else [v])"
| "slot_values (Arr vs) = vs"

definition contents :: "slot list \<Rightarrow> nat list" where
  "contents m = concat (map slot_values m)"

text \<open>
  An invariant of the first loop: the values of every slot ascend and none is above
  \<open>k\<close>, the number of values placed so far.
\<close>

definition ascending_below :: "nat \<Rightarrow> slot list \<Rightarrow> bool" where
  "ascending_below k m =
     (\<forall>x \<in> set m. sorted_wrt (<) (slot_values x) \<and> (\<forall>v \<in> set (slot_values x). v \<le> k))"

text \<open>
  To run a function on given draws: a \<open>Math.random\<close> whose state is the list of the
  doubles it will return.
\<close>

fun replay :: "dbl list \<Rightarrow> dbl \<times> dbl list" where
  "replay [] = ((0, 0), [])"
| "replay (x # xs) = (x, xs)"

section \<open>The command line (index.ts, \<open>main\<close>)\<close>

text \<open>
  \<^verbatim>\<open>
  const argv2 = process.argv[2];
  if(!argv2) {
    console.error('Enter a number n as a command line argument.');
    process.exit(1);
  }
  const n = Number(argv2);
  if(!Number.isInteger(n) || n < 1) {
    console.error('n must be a positive integer (> 0).');
    process.exit(1);
  }
  const a = AFB_x_AS_x_OPT(n)();
  for(let i=0;i<a.length;++i) {
    if(i > 0)
      process.stdout.write(',');
    process.stdout.write(a[i].toString());
  }
  process.stdout.write('\n');
  \<close>
  A JavaScript number is not-a-number, an infinity or a finite value. The conversion
  \<open>Number(argv2)\<close> of the argument's text is the language's and is a parameter.
  What \<open>main\<close> does is the list of its actions in order: a line on the error
  stream, the end of the process, the allocation of the typed array inside
  \<open>AFB_x_AS_x_OPT\<close>, an uncaught exception, a write on the standard output.
\<close>

datatype jsnum = NaN | PosInf | NegInf | Fin real

fun isInteger :: "jsnum \<Rightarrow> bool" where
  "isInteger (Fin x) = (x = of_int \<lfloor>x\<rfloor>)"
| "isInteger _ = False"

text \<open>\<open>n < 1\<close>, false for not-a-number.\<close>

fun less_than_one :: "jsnum \<Rightarrow> bool" where
  "less_than_one (Fin x) = (x < 1)"
| "less_than_one NegInf = True"
| "less_than_one _ = False"

datatype action =
    ConsoleError string
  | Exit nat
  | NewUint32Array nat
  | Uncaught error
  | StdoutWrite string

text \<open>\<open>toString\<close> of a nonnegative integer: its decimal digits.\<close>

fun decimal :: "nat \<Rightarrow> string" where
  "decimal k =
     (if k < 10 then [char_of (48 + k)] else decimal (k div 10) @ [char_of (48 + k mod 10)])"

declare decimal.simps [simp del]

fun write_elements :: "nat \<Rightarrow> u32 list \<Rightarrow> action list" where
  "write_elements i [] = []"
| "write_elements i (x # xs) =
     (if 0 < i then [StdoutWrite '',''] else []) @ [StdoutWrite (decimal (unat x))]
       @ write_elements (i + 1) xs"

text \<open>The size handed on by the guard: a finite integer from 1 on, as a natural number.\<close>

fun size_of :: "jsnum \<Rightarrow> nat" where
  "size_of (Fin x) = nat \<lfloor>x\<rfloor>"
| "size_of _ = 0"

definition main :: "(string \<Rightarrow> jsnum) \<Rightarrow> string option \<Rightarrow> nat \<Rightarrow> action list" where
  "main Number argv2 seed =
     (case argv2 of
        None \<Rightarrow> [ConsoleError ''Enter a number n as a command line argument.'', Exit 1]
      | Some arg \<Rightarrow>
          if arg = [] then
            [ConsoleError ''Enter a number n as a command line argument.'', Exit 1]
          else
            let n = Number arg in
            if \<not> isInteger n \<or> less_than_one n then
              [ConsoleError ''n must be a positive integer (> 0).'', Exit 1]
            else
              NewUint32Array (size_of n) #
              (case AFB_x_AS_x_OPT (size_of n) seed of
                 Inl e \<Rightarrow> [Uncaught e]
               | Inr (a, seed') \<Rightarrow> write_elements 0 a @ [StdoutWrite [CHR 0x0A]]))"

text \<open>
  What the claims call a positive integer, said without the functions of the guard:
  the finite value of some natural number from 1 on.
\<close>

definition positive_integer :: "jsnum \<Rightarrow> bool" where
  "positive_integer n = (\<exists>k::nat. 1 \<le> k \<and> n = Fin (real k))"

section \<open>The benchmark harness (util.ts, \<open>measure\<close>)\<close>

text \<open>
  \<^verbatim>\<open>
  type MeasureArgs = { f:Function; n:number; name: string; };

  export function measure(args:MeasureArgs):void {
    const now = performance.now();
    args.f();
    const ms = performance.now()-now;
    console.warn(
      args.name.padStart(32, ' '),
      (ms.toLocaleString(undefined, { minimumFractionDigits:2, maximumFractionDigits:2 }) + ' ms').padStart(24, ' '),
      ((args.n/ms*1000).toLocaleString(undefined, { maximumFractionDigits:0 }) + ' ops/s').padStart(24, ' ')
    );
  };
  \<close>
  The thunk \<open>f\<close> works by its effects: it is a function from the state of the world
  to the state it leaves. The clock is read off the world by the parameter
  \<open>performance_now\<close>, in milliseconds. \<open>toLocaleString\<close> is the engine's and a
  parameter, with the minimum and maximum number of fraction digits it is given. The
  arithmetic on finite numbers is exact; a division by zero gives an infinity or
  not-a-number as in JavaScript. \<open>measure_js\<close> (the source's \<open>measure\<close>; the
  fields of its argument are \<open>args.f\<close>, \<open>args.n\<close> and \<open>args.name\<close>) returns
  the three strings it hands to \<open>console.warn\<close> and the world the thunk left.
\<close>

record 'w MeasureArgs =
  args_f :: "'w \<Rightarrow> 'w"
  args_n :: real
  args_name :: string

definition padStart :: "nat \<Rightarrow> char \<Rightarrow> string \<Rightarrow> string" where
  "padStart k c s = replicate (k - length s) c @ s"

definition js_divide :: "real \<Rightarrow> real \<Rightarrow> jsnum" where
  "js_divide x y =
     (if y = 0 then (if x = 0 then NaN else if 0 < x then PosInf else NegInf)
      else Fin (x / y))"

fun times_1000 :: "jsnum \<Rightarrow> jsnum" where
  "times_1000 (Fin x) = Fin (x * 1000)"
| "times_1000 v = v"

definition measure_js ::
    "('w \<Rightarrow> real) \<Rightarrow> (nat option \<Rightarrow> nat option \<Rightarrow> jsnum \<Rightarrow> string) \<Rightarrow>
     'w MeasureArgs \<Rightarrow> 'w \<Rightarrow> string list \<times> 'w" where
  "measure_js performance_now toLocaleString args w =
     (let now = performance_now w;
          w' = args_f args w;
          ms = performance_now w' - now
      in ([padStart 32 CHR '' '' (args_name args),
           padStart 24 CHR '' '' (toLocaleString (Some 2) (Some 2) (Fin ms) @ '' ms''),
           padStart 24 CHR '' ''
             (toLocaleString None (Some 0) (times_1000 (js_divide (args_n args) ms)) @ '' ops/s'')],
          w'))"

section \<open>Properties of the generator\<close>

lemma dbl_round_small: "x < 2 ^ 53 \<Longrightarrow> dbl_round x = x"
  by (simp add: dbl_round_def)

lemma mulberry32_range: "0 \<le> fst (mulberry32 seed) \<and> fst (mulberry32 seed) < 1"
proof -
  obtain w s where ws: "mulberry32_bits seed = (w, s)"
    by (cases "mulberry32_bits seed")
  define n where "n = unat w"
  have "n < 4294967296"
    using unsigned_less [of w] by (simp add: n_def)
  then have "0 \<le> real n / 4294967296 \<and> real n / 4294967296 < 1"
    by simp
  moreover have "fst (mulberry32 seed) = real n / 4294967296"
    by (simp add: mulberry32_def ws n_def)
  ultimately show ?thesis
    by (simp only:)
qed

lemma mulberry32_mixes_low_bits:
  "fst (mulberry32 seed) =
     real (unat (mulberry32_mix (word_of_nat (snd (mulberry32 seed))))) / 2 ^ 32"
  by (simp add: mulberry32_def mulberry32_bits_def mulberry32_mix_def imul_def Let_def)

lemma mulberry32_step_u32:
  assumes "seed + 0x6D2B79F5 < 2 ^ 53"
  shows "fst (mulberry32 seed) = fst (mulberry32_u32 (word_of_nat seed))"
    and "word_of_nat (snd (mulberry32 seed)) = snd (mulberry32_u32 (word_of_nat seed))"
    and "snd (mulberry32 seed) = seed + 0x6D2B79F5"
  using assms
  by (simp_all add: mulberry32_def mulberry32_bits_def mulberry32_u32_def mulberry32_mix_def
      imul_def Let_def dbl_round_small)

lemma mulberry32_outputs_u32:
  "seed + k * 0x6D2B79F5 < 2 ^ 53 \<Longrightarrow>
   mulberry32_outputs k seed = mulberry32_u32_outputs k (word_of_nat seed)"
proof (induction k arbitrary: seed)
  case 0
  then show ?case by simp
next
  case (Suc k)
  have small: "seed + 0x6D2B79F5 < 2 ^ 53"
    using Suc.prems by simp
  obtain x s where xs: "mulberry32 seed = (x, s)"
    by (cases "mulberry32 seed")
  obtain y t where yt: "mulberry32_u32 (word_of_nat seed) = (y, t)"
    by (cases "mulberry32_u32 (word_of_nat seed)")
  have "x = y" and "word_of_nat s = t" and s: "s = seed + 0x6D2B79F5"
    using mulberry32_step_u32 [OF small] xs yt by simp_all
  moreover have "s + k * 0x6D2B79F5 < 2 ^ 53"
    using Suc.prems s by simp
  ultimately show ?case
    using Suc.IH [of s] xs yt by simp
qed

lemma mulberry32_state_exact:
  "seed + k * 0x6D2B79F5 < 2 ^ 53 \<Longrightarrow> mulberry32_state k seed = seed + k * 0x6D2B79F5"
proof (induction k arbitrary: seed)
  case 0
  then show ?case by simp
next
  case (Suc k)
  have small: "seed + 0x6D2B79F5 < 2 ^ 53"
    using Suc.prems by simp
  have s: "snd (mulberry32 seed) = seed + 0x6D2B79F5"
    using small by (rule mulberry32_step_u32(3))
  have "seed + 0x6D2B79F5 + k * 0x6D2B79F5 < 2 ^ 53"
    using Suc.prems by simp
  then have "mulberry32_state k (seed + 0x6D2B79F5) = seed + 0x6D2B79F5 + k * 0x6D2B79F5"
    by (rule Suc.IH)
  then show ?case by (simp add: s)
qed

lemma mulberry32_state_last:
  "mulberry32_state (Suc k) seed = snd (mulberry32 (mulberry32_state k seed))"
  by (induction k arbitrary: seed) simp_all

lemma mulberry32_outputs_append:
  "mulberry32_outputs (d + k) seed =
     mulberry32_outputs d seed @ mulberry32_outputs k (mulberry32_state d seed)"
proof (induction d arbitrary: seed)
  case 0
  then show ?case by simp
next
  case (Suc d)
  obtain x s where xs: "mulberry32 seed = (x, s)"
    by (cases "mulberry32 seed")
  show ?case
    using Suc.IH [of s] by (simp add: xs)
qed

lemma length_mulberry32_outputs: "length (mulberry32_outputs k seed) = k"
proof (induction k arbitrary: seed)
  case 0
  then show ?case by simp
next
  case (Suc k)
  obtain x s where xs: "mulberry32 seed = (x, s)"
    by (cases "mulberry32 seed")
  show ?case using Suc.IH [of s] by (simp add: xs)
qed

lemma mulberry32_outputs_last:
  "mulberry32_outputs (Suc k) seed ! k = fst (mulberry32 (mulberry32_state k seed))"
proof -
  have one: "mulberry32_outputs (Suc 0) s = [fst (mulberry32 s)]" for s
    by (cases "mulberry32 s") simp
  have "mulberry32_outputs (k + Suc 0) seed =
      mulberry32_outputs k seed @ mulberry32_outputs (Suc 0) (mulberry32_state k seed)"
    by (rule mulberry32_outputs_append)
  then have "mulberry32_outputs (Suc k) seed =
      mulberry32_outputs k seed @ [fst (mulberry32 (mulberry32_state k seed))]"
    by (simp only: one add_Suc_right add_0_right)
  then show ?thesis
    using nth_append_length [of "mulberry32_outputs k seed"]
    by (simp only: length_mulberry32_outputs)
qed

lemma mulberry32_u32_outputs_append:
  "mulberry32_u32_outputs (d + k) state =
     mulberry32_u32_outputs d state @ mulberry32_u32_outputs k (state + of_nat d * 0x6D2B79F5)"
proof (induction d arbitrary: state)
  case 0
  then show ?case by simp
next
  case (Suc d)
  show ?case
    using Suc.IH [of "state + 0x6D2B79F5"]
    by (simp add: mulberry32_u32_def Let_def algebra_simps)
qed

lemma length_mulberry32_u32_outputs: "length (mulberry32_u32_outputs k state) = k"
  by (induction k arbitrary: state) (simp_all add: mulberry32_u32_def Let_def)

lemma mulberry32_u32_outputs_last:
  "mulberry32_u32_outputs (Suc k) state ! k =
     fst (mulberry32_u32 (state + of_nat k * 0x6D2B79F5))"
proof -
  have one: "mulberry32_u32_outputs (Suc 0) s = [fst (mulberry32_u32 s)]" for s
    by (cases "mulberry32_u32 s") simp
  have "mulberry32_u32_outputs (k + Suc 0) state =
      mulberry32_u32_outputs k state @
      mulberry32_u32_outputs (Suc 0) (state + of_nat k * 0x6D2B79F5)"
    by (rule mulberry32_u32_outputs_append)
  then have "mulberry32_u32_outputs (Suc k) state =
      mulberry32_u32_outputs k state @ [fst (mulberry32_u32 (state + of_nat k * 0x6D2B79F5))]"
    by (simp only: one add_Suc_right add_0_right)
  then show ?thesis
    using nth_append_length [of "mulberry32_u32_outputs k state"]
    by (simp only: length_mulberry32_u32_outputs)
qed

text \<open>
  C4. The stored state is not computed modulo \<open>2 ^ 32\<close>: a call from the state
  \<open>2 ^ 32 - 1\<close> leaves \<open>6126533108\<close>. And the values returned leave those of the
  generator with a 32-bit state once the state has grown to \<open>2 ^ 53\<close>, where the
  addition of the odd increment rounds to an even double. From the seed
  \<open>1749513600001\<close>, a value of \<open>Date.now()\<close>, the first 4916803 values are those of
  the 32-bit generator; the next call leaves the state \<open>9007199629221652\<close>, one less
  than the sum, and returns \<open>1389623560 / 2 ^ 32\<close> where the 32-bit generator returns
  \<open>2350128940 / 2 ^ 32\<close>.
\<close>

theorem mulberry32_leaves_u32_generator:
  "snd (mulberry32 4294967295) = 6126533108 \<and>
   mulberry32_outputs 4916803 1749513600001 =
     mulberry32_u32_outputs 4916803 (word_of_nat 1749513600001) \<and>
   mulberry32_state 4916804 1749513600001 = 9007199629221652 \<and>
   mulberry32_outputs 4916804 1749513600001 ! 4916803 = 1389623560 / 4294967296 \<and>
   mulberry32_u32_outputs 4916804 (word_of_nat 1749513600001) ! 4916803 =
     2350128940 / 4294967296"
proof -
  have a: "snd (mulberry32 4294967295) = 6126533108"
    by (simp add: mulberry32_def mulberry32_bits_def dbl_round_def Let_def)
  have b: "mulberry32_outputs 4916803 1749513600001 =
      mulberry32_u32_outputs 4916803 (word_of_nat 1749513600001)"
    by (rule mulberry32_outputs_u32) simp
  have st: "mulberry32_state 4916803 1749513600001 = 9007197797655840"
    using mulberry32_state_exact [of 1749513600001 4916803] by simp
  have call: "mulberry32 9007197797655840 = (1389623560 / 4294967296, 9007199629221652)"
    by (simp add: mulberry32_def mulberry32_bits_def dbl_round_def imul_def Let_def
        bitlen.simps)
  have "mulberry32_outputs (Suc 4916803) 1749513600001 ! 4916803 =
      fst (mulberry32 (mulberry32_state 4916803 1749513600001))"
    by (rule mulberry32_outputs_last)
  then have c: "mulberry32_outputs 4916804 1749513600001 ! 4916803 = 1389623560 / 4294967296"
    by (simp add: st call)
  have "mulberry32_u32_outputs (Suc 4916803) (word_of_nat 1749513600001) ! 4916803 =
      fst (mulberry32_u32 (word_of_nat 1749513600001 + of_nat 4916803 * 0x6D2B79F5))"
    by (rule mulberry32_u32_outputs_last)
  then have d: "mulberry32_u32_outputs 4916804 (word_of_nat 1749513600001) ! 4916803 =
      2350128940 / 4294967296"
    by (simp add: mulberry32_u32_def mulberry32_mix_def Let_def)
  have "mulberry32_state (Suc 4916803) 1749513600001 =
      snd (mulberry32 (mulberry32_state 4916803 1749513600001))"
    by (rule mulberry32_state_last)
  then have e: "mulberry32_state 4916804 1749513600001 = 9007199629221652"
    by (simp add: st call)
  show ?thesis
    using a b c d e by (simp only: simp_thms)
qed

section \<open>Properties of the double rounding\<close>

lemma bitlen_lower: "n \<noteq> 0 \<Longrightarrow> 2 ^ (bitlen n - 1) \<le> n"
proof (induction n rule: bitlen.induct)
  case (1 n)
  show ?case
  proof (cases "n div 2 = 0")
    case True
    then have "bitlen (n div 2) = 0" by (simp add: bitlen.simps)
    then have "bitlen n = 1" using "1.prems" by (subst bitlen.simps) simp
    then show ?thesis using "1.prems" by simp
  next
    case False
    then have ih: "2 ^ (bitlen (n div 2) - 1) \<le> n div 2"
      using "1.IH" "1.prems" by simp
    have pos: "0 < bitlen (n div 2)"
      using False by (subst bitlen.simps) simp
    have "bitlen n = Suc (bitlen (n div 2))"
      using "1.prems" by (subst bitlen.simps) simp
    then have "(2::nat) ^ (bitlen n - 1) = 2 * 2 ^ (bitlen (n div 2) - 1)"
      using pos by (cases "bitlen (n div 2)") simp_all
    also have "\<dots> \<le> 2 * (n div 2)" using ih by simp
    also have "\<dots> \<le> n" by simp
    finally show ?thesis .
  qed
qed

lemma dbl_round_upper: "dbl_round x \<le> x + 2 ^ (bitlen x - 54)"
proof (cases "x < 2 ^ 53")
  case True
  then show ?thesis by (simp add: dbl_round_small)
next
  case False
  define e where "e = bitlen x - 53"
  define q where "q = x div 2 ^ e"
  define r where "r = x mod 2 ^ e"
  define h where "h = (2::nat) ^ (e - 1)"
  have x: "x = q * 2 ^ e + r"
    unfolding q_def r_def by (rule div_mult_mod_eq [symmetric])
  have dr: "dbl_round x = (if r < h \<or> (r = h \<and> even q) then q * 2 ^ e else (q + 1) * 2 ^ e)"
    using False by (simp add: dbl_round_def Let_def e_def q_def r_def h_def)
  show ?thesis
  proof (cases "r < h \<or> (r = h \<and> even q)")
    case True
    then have "dbl_round x = q * 2 ^ e" using dr by simp
    then show ?thesis using x by simp
  next
    case no: False
    then have up: "dbl_round x = (q + 1) * 2 ^ e" and rh: "h \<le> r"
      using dr by auto
    have "r < 2 ^ e" by (simp add: r_def)
    have epos: "e \<noteq> 0"
    proof
      assume "e = 0"
      then have "r = 0" and "h = 1" by (simp_all add: r_def h_def)
      then show False using no by simp
    qed
    then have two: "(2::nat) ^ e = 2 * h"
      by (cases e) (simp_all add: h_def)
    have "bitlen x - 54 = e - 1" by (simp add: e_def)
    then have "x + 2 ^ (bitlen x - 54) = q * 2 ^ e + r + h"
      using x by (simp add: h_def)
    moreover have "dbl_round x = q * 2 ^ e + 2 * h"
      using up two by (simp add: algebra_simps)
    ultimately show ?thesis using rh by simp
  qed
qed

lemma half_ulp_bound:
  assumes "2 ^ 53 \<le> p"
  shows "2 ^ (bitlen p - 54) * 2 ^ 53 \<le> p"
proof (cases "54 \<le> bitlen p")
  case True
  have "(2::nat) ^ (bitlen p - 54) * 2 ^ 53 = 2 ^ (bitlen p - 54 + 53)"
    by (simp add: power_add)
  also have "\<dots> \<le> 2 ^ (bitlen p - 1)"
    using True by (intro power_increasing) simp_all
  also have "\<dots> \<le> p"
    using assms by (intro bitlen_lower) auto
  finally show ?thesis .
next
  case False
  then have "bitlen p - 54 = 0" by simp
  then have "(2::nat) ^ (bitlen p - 54) * 2 ^ 53 = 2 ^ 53" by simp
  then show ?thesis using assms by simp
qed

text \<open>
  The rounding of the product never reaches the next integer multiple: for a
  numerator \<open>u\<close> of at most 53 bits below \<open>2 ^ e\<close>, the rounded product \<open>u * k\<close>
  stays below \<open>2 ^ e * k\<close>, so that the floor of the double product is below \<open>k\<close>.
\<close>

lemma dbl_round_product_less:
  assumes "u < 2 ^ 53" and "u < 2 ^ e" and "0 < k"
  shows "dbl_round (u * k) < 2 ^ e * k"
proof -
  have le: "u * k + k \<le> 2 ^ e * k"
  proof -
    have "Suc u \<le> 2 ^ e" using assms(2) by simp
    then have "Suc u * k \<le> 2 ^ e * k" by (rule mult_le_mono1)
    then show ?thesis by (simp add: add.commute)
  qed
  show ?thesis
  proof (cases "u * k < 2 ^ 53")
    case True
    then have "dbl_round (u * k) = u * k" by (rule dbl_round_small)
    then show ?thesis using le assms(3) by linarith
  next
    case False
    define h where "h = (2::nat) ^ (bitlen (u * k) - 54)"
    have "h * 2 ^ 53 \<le> u * k"
      using False half_ulp_bound [of "u * k"] by (simp add: h_def)
    also have "u * k < 2 ^ 53 * k"
      using assms(1,3) by simp
    finally have "h < k" by simp
    moreover have "dbl_round (u * k) \<le> u * k + h"
      using dbl_round_upper [of "u * k"] by (simp add: h_def)
    ultimately show ?thesis using le by linarith
  qed
qed

lemma mulberry32_index_less: "0 < k \<Longrightarrow> fst (mulberry32_index k seed) < k"
proof -
  assume k: "0 < k"
  obtain w s where ws: "mulberry32_bits seed = (w, s)"
    by (cases "mulberry32_bits seed")
  have w: "unat w < 2 ^ 32"
    using unsigned_less [of w] by simp
  then have "unat w < 2 ^ 53"
    by simp
  then have "dbl_round (unat w * k) < 2 ^ 32 * k"
    using w k by (rule dbl_round_product_less)
  then have "dbl_round (unat w * k) div 2 ^ 32 < k"
    by (simp add: less_mult_imp_div_less mult.commute)
  then show ?thesis
    by (simp add: mulberry32_index_def ws)
qed

section \<open>Properties of the fill loop and the swap loop\<close>

lemma fill_loop_prefix:
  "k \<le> length a \<Longrightarrow> fold (\<lambda>i a. a[i := f i]) [0..<k] a = map f [0..<k] @ drop k a"
proof (induction k)
  case 0
  then show ?case by simp
next
  case (Suc k)
  then have k: "k < length a" by simp
  have "fold (\<lambda>i a. a[i := f i]) [0..<Suc k] a = (map f [0..<k] @ drop k a)[k := f k]"
    using Suc by simp
  also have "\<dots> = map f [0..<k] @ (drop k a)[0 := f k]"
    by (simp add: list_update_append)
  also have "drop k a = a ! k # drop (Suc k) a"
    using k by (simp add: Cons_nth_drop_Suc)
  finally show ?case by simp
qed

lemma fill_loop: "fold (\<lambda>i a. a[i := f i]) [0..<n] (replicate n z) = map f [0..<n]"
  using fill_loop_prefix [of n "replicate n z" f] by simp

lemma swap_loop_mset:
  assumes "\<And>k s. 0 < k \<Longrightarrow> fst (rand_index k s) < k"
  shows "i < length a \<Longrightarrow> mset (fst (swap_loop rand_index i a s)) = mset a"
proof (induction i arbitrary: a s)
  case 0
  then show ?case by simp
next
  case (Suc i)
  obtain j s' where js: "rand_index (Suc i + 1) s = (j, s')"
    by (cases "rand_index (Suc i + 1) s")
  have "fst (rand_index (Suc i + 1) s) < Suc i + 1"
    by (rule assms) simp
  then have j: "j < length a"
    using js Suc.prems by simp
  define b where "b = a[Suc i := a ! j, j := a ! Suc i]"
  have b: "mset b = mset a"
    unfolding b_def using Suc.prems j by (simp add: mset_swap)
  have "length b = length a" by (simp add: b_def)
  then have "mset (fst (swap_loop rand_index i b s')) = mset b"
    using Suc.IH [of b s'] Suc.prems by simp
  then show ?case
    using js b by (simp add: b_def Let_def)
qed

lemma swap_loop_length: "length (fst (swap_loop rand_index i a s)) = length a"
proof (induction i arbitrary: a s)
  case 0
  then show ?case by simp
next
  case (Suc i)
  obtain j s' where js: "rand_index (Suc i + 1) s = (j, s')"
    by (cases "rand_index (Suc i + 1) s")
  show ?case
    using js Suc.IH [of "a[Suc i := a ! j, j := a ! Suc i]" s'] by (simp add: Let_def)
qed

lemma floor_product_less:
  assumes "unit_double x" and "0 < k"
  shows "floor_product x k < k"
proof -
  obtain m e where x: "x = (m, e)" by (cases x)
  have "dbl_round (m * k) < 2 ^ e * k"
    using assms by (intro dbl_round_product_less) (simp_all add: x)
  then have "dbl_round (m * k) div 2 ^ e < k"
    by (simp add: less_mult_imp_div_less mult.commute)
  then show ?thesis by (simp add: x)
qed

lemma math_random_index_less:
  assumes "unit_double (fst (random s))" and "0 < k"
  shows "fst (math_random_index random k s) < k"
proof -
  obtain x s' where xs: "random s = (x, s')"
    by (cases "random s")
  then have "floor_product x k < k"
    using assms by (intro floor_product_less) simp_all
  then show ?thesis by (simp add: math_random_index_def xs)
qed

section \<open>Properties of the swap shuffles\<close>

lemma opt_result:
  "n \<le> 2251799813685247 \<Longrightarrow>
   AFB_x_AS_x_OPT n seed =
     Inr (swap_loop mulberry32_index (n - 1) (map (\<lambda>i. word_of_nat (i + 1)) [0..<n]) seed)"
  by (simp add: AFB_x_AS_x_OPT_def fill_loop)

lemma afb_result:
  "n \<le> 4294967295 \<Longrightarrow>
   AFB_x_AS random n s =
     Inr (swap_loop (math_random_index random) (n - 1) (map (\<lambda>i. Some (i + 1)) [0..<n]) s)"
  by (simp add: AFB_x_AS_def fill_loop)

lemma mset_one_to_n: "mset (map (\<lambda>i. i + 1) [0..<n]) = mset_set {1..n}"
proof -
  have "map (\<lambda>i. i + 1) [0..<n] = [1..<Suc n]"
    using map_Suc_upt [of 0 n] by simp
  moreover have "{1..<Suc n} = {1..n}"
    by auto
  ultimately show ?thesis
    by (simp only: mset_upt)
qed

lemma unat_fill_u32:
  assumes "n < 2 ^ 32"
  shows "map unat (map (\<lambda>i. word_of_nat (i + 1) :: u32) [0..<n]) = map (\<lambda>i. i + 1) [0..<n]"
proof -
  have "unat (word_of_nat (i + 1) :: u32) = i + 1" if "i < n" for i
  proof -
    have "i + 1 < 2 ^ 32" using that assms by simp
    then show ?thesis by (intro of_nat_inverse [OF refl]) simp
  qed
  then show ?thesis by simp
qed

lemma opt_permutation:
  assumes "1 \<le> n" and "n < 2 ^ 32"
  shows "\<exists>a s'. AFB_x_AS_x_OPT n seed = Inr (a, s') \<and> length a = n \<and>
           mset (map unat a) = mset_set {1..n}"
proof -
  define a0 :: "u32 list" where "a0 = map (\<lambda>i. word_of_nat (i + 1)) [0..<n]"
  define r where "r = swap_loop mulberry32_index (n - 1) a0 seed"
  have res: "AFB_x_AS_x_OPT n seed = Inr r"
    using assms by (simp add: opt_result r_def a0_def)
  have len: "length a0 = n" by (simp add: a0_def)
  have "mset (fst r) = mset a0"
    unfolding r_def using assms len
    by (intro swap_loop_mset mulberry32_index_less) simp_all
  then have "mset (map unat (fst r)) = mset (map unat a0)"
    by (metis mset_map)
  also have "\<dots> = mset_set {1..n}"
    using assms by (simp only: a0_def unat_fill_u32 mset_one_to_n)
  finally have "mset (map unat (fst r)) = mset_set {1..n}" .
  moreover have "length (fst r) = n"
    by (simp add: r_def swap_loop_length len)
  ultimately show ?thesis
    using res by (cases r) auto
qed

lemma afb_permutation:
  assumes "1 \<le> n" and "n < 2 ^ 32"
    and rnd: "\<forall>s. unit_double (fst (random s))"
  shows "\<exists>a s'. AFB_x_AS random n s0 = Inr (a, s') \<and> length a = n \<and>
           mset a = image_mset Some (mset_set {1..n})"
proof -
  define a0 :: "nat option list" where "a0 = map (\<lambda>i. Some (i + 1)) [0..<n]"
  define r where "r = swap_loop (math_random_index random) (n - 1) a0 s0"
  have res: "AFB_x_AS random n s0 = Inr r"
    using assms by (simp add: afb_result r_def a0_def)
  have len: "length a0 = n" by (simp add: a0_def)
  have "mset (fst r) = mset a0"
    unfolding r_def using assms(1,2) len rnd
    by (intro swap_loop_mset math_random_index_less) simp_all
  also have "a0 = map Some (map (\<lambda>i. i + 1) [0..<n])"
    by (simp add: a0_def)
  also have "mset \<dots> = image_mset Some (mset_set {1..n})"
    by (metis mset_map mset_one_to_n)
  finally have "mset (fst r) = image_mset Some (mset_set {1..n})" .
  moreover have "length (fst r) = n"
    by (simp add: r_def swap_loop_length len)
  ultimately show ?thesis
    using res by (cases r) auto
qed

lemma swap_loop_numeral:
  "swap_loop ri (numeral k) a s =
     (let i = numeral k;
          (j, s') = ri (i + 1) s;
          t = a ! i;
          a = a[i := a ! j];
          a = a[j := t]
      in swap_loop ri (pred_numeral k) a s')"
  by (simp add: numeral_eq_Suc)

lemma swap_loop_one:
  "swap_loop ri (Suc 0) a s =
     (let (j, s') = ri 2 s;
          t = a ! 1;
          a = a[1 := a ! j];
          a = a[j := t]
      in (a, s'))"
  by (simp add: numeral_2_eq_2)

lemma draws_from_42:
  "mulberry32_index 3 42 = (1, 1831565855)"
  "mulberry32_index 2 1831565855 = (0, 3663131668)"
  by (simp_all add: mulberry32_index_def mulberry32_bits_def dbl_round_def imul_def)

lemma shuffles_of_three:
  "AFB_x_AS_x_OPT 3 42 = Inr ([3, 1, 2], 3663131668) \<and>
   AFB_x_AS (\<lambda>s::nat. ((1, 1), Suc s)) 3 0 = Inr ([Some 1, Some 3, Some 2], 2)"
  by (simp add: opt_result afb_result upt_conv_Cons swap_loop_numeral swap_loop_one
      draws_from_42 math_random_index_def dbl_round_def del: swap_loop.simps(2))

text \<open>
  C1 (as amended). For every size \<open>n\<close> with \<open>1 \<le> n < 2 ^ 32\<close>:
  \<open>AFB_x_AS_x_OPT\<close>, from every state of the generator, returns a buffer of
  length \<open>n\<close> whose values are the multiset \<open>{1..n}\<close>, each value once; and so does
  \<open>AFB_x_AS\<close>, for every \<open>Math.random\<close> that only returns doubles in \<open>[0,1)\<close>.
\<close>

theorem swap_shuffle_permutation:
  assumes "1 \<le> n" and "n < 2 ^ 32"
  shows "(\<exists>a s'. AFB_x_AS_x_OPT n seed = Inr (a, s') \<and> length a = n \<and>
            mset (map unat a) = mset_set {1..n}) \<and>
         ((\<forall>s. unit_double (fst (random s))) \<longrightarrow>
          (\<exists>a s'. AFB_x_AS random n s0 = Inr (a, s') \<and> length a = n \<and>
             mset a = image_mset Some (mset_set {1..n})))"
  using opt_permutation [OF assms, of seed] afb_permutation [OF assms, of random s0] by simp

theorem swap_shuffle_permutation_witness:
  "(1::nat) \<le> 3 \<and> (3::nat) < 2 ^ 32 \<and>
   AFB_x_AS_x_OPT 3 42 = Inr ([3, 1, 2], 3663131668) \<and>
   AFB_x_AS (\<lambda>s::nat. ((1, 1), Suc s)) 3 0 = Inr ([Some 1, Some 3, Some 2], 2) \<and>
   (\<forall>s::nat. unit_double (fst ((1, 1) :: dbl, Suc s))) \<and>
   (\<exists>a s'. AFB_x_AS_x_OPT 3 42 = Inr (a, s') \<and> length a = 3 \<and>
      mset (map unat a) = mset_set {1..3}) \<and>
   (\<exists>a s'. AFB_x_AS (\<lambda>s::nat. ((1, 1), Suc s)) 3 0 = Inr (a, s') \<and> length a = 3 \<and>
      mset a = image_mset Some (mset_set {1..3}))"
  using swap_shuffle_permutation [of 3 42 "\<lambda>s::nat. ((1, 1), Suc s)" 0]
    shuffles_of_three
  by simp

lemma opt_wraps:
  assumes "2 ^ 32 \<le> n" and "n \<le> 2251799813685247"
  shows "\<exists>a s'. AFB_x_AS_x_OPT n seed = Inr (a, s') \<and> length a = n \<and>
           0 \<in> set (map unat a) \<and> n \<notin> set (map unat a)"
proof -
  define a0 :: "u32 list" where "a0 = map (\<lambda>i. word_of_nat (i + 1)) [0..<n]"
  define r where "r = swap_loop mulberry32_index (n - 1) a0 seed"
  have res: "AFB_x_AS_x_OPT n seed = Inr r"
    using assms by (simp add: opt_result r_def a0_def)
  have len: "length a0 = n" by (simp add: a0_def)
  have npos: "0 < n" using assms(1) by (cases n) simp_all
  have "mset (fst r) = mset a0"
    unfolding r_def using npos len
    by (intro swap_loop_mset mulberry32_index_less) simp_all
  then have sets: "set (fst r) = set a0"
    by (rule mset_eq_setD)
  have "a0 ! 4294967295 = (word_of_nat (4294967295 + 1) :: u32)"
    using assms(1) unfolding a0_def by (subst nth_map) simp_all
  also have "\<dots> = 0" by simp
  finally have "a0 ! 4294967295 = 0" .
  moreover have "4294967295 < length a0"
    using assms(1) len by simp
  ultimately have "(0::u32) \<in> set a0"
    by (metis nth_mem)
  then have zero: "0 \<in> set (map unat (fst r))"
    using sets by force
  have "unat w < n" for w :: u32
  proof -
    have "unat w < 2 ^ 32" using unsigned_less [of w] by simp
    then show ?thesis using assms(1) by simp
  qed
  then have "n \<notin> set (map unat (fst r))"
    by auto
  moreover have "length (fst r) = n"
    by (simp add: r_def swap_loop_length len)
  ultimately show ?thesis
    using res zero by (cases r) auto
qed

text \<open>
  C1 as stated fails at \<open>n = 2 ^ 32\<close>: the elements of a \<open>Uint32Array\<close> are 32-bit
  words, the store \<open>a[i] = i+1\<close> at the last index keeps \<open>2 ^ 32\<close> modulo
  \<open>2 ^ 32\<close>, and the buffer returned holds the value 0 and does not hold
  \<open>2 ^ 32\<close>.
\<close>

theorem swap_shuffle_wraps_at_2_32:
  "\<exists>a s'. AFB_x_AS_x_OPT 4294967296 0 = Inr (a, s') \<and> length a = 4294967296 \<and>
     0 \<in> set (map unat a) \<and> 4294967296 \<notin> set (map unat a)"
  by (rule opt_wraps) simp_all

section \<open>The variant without initialisation\<close>

text \<open>
  Below \<open>2 ^ 32\<close> the variant makes the swaps of \<open>AFB_x_AS_x_OPT\<close> on the
  buffer it means: on the same draws its buffer, with \<open>k+1\<close> read for every zero
  left at an index \<open>k\<close>, is the buffer of \<open>AFB_x_AS_x_OPT\<close>. What it returns
  are the zeros themselves.
\<close>

lemma length_materialise: "length (materialise a) = length a"
  by (simp add: materialise_def)

lemma materialise_nth:
  "k < length a \<Longrightarrow> materialise a ! k = (if a ! k = 0 then word_of_nat (k + 1) else a ! k)"
  by (simp add: materialise_def del: of_nat_add of_nat_Suc)

lemma word_of_index_nonzero:
  assumes "k < n" and "n < 2 ^ 32"
  shows "(word_of_nat (k + 1) :: u32) \<noteq> 0"
proof
  assume z: "(word_of_nat (k + 1) :: u32) = 0"
  have "k + 1 < 2 ^ 32" using assms by simp
  then have "unat (word_of_nat (k + 1) :: u32) = k + 1"
    by (intro of_nat_inverse [OF refl]) simp
  then show False using z by simp
qed

lemma materialise_nonzero:
  "k < length a \<Longrightarrow> length a < 2 ^ 32 \<Longrightarrow> materialise a ! k \<noteq> 0"
  using word_of_index_nonzero [of k "length a"] by (simp add: materialise_nth del: of_nat_add of_nat_Suc)

lemma lazy_value:
  "k < length a \<Longrightarrow>
   (word_of_nat (if a ! k \<noteq> 0 then unat (a ! k) else k + 1) :: u32) = materialise a ! k"
  by (simp add: materialise_nth del: of_nat_add of_nat_Suc)

lemma materialise_swap:
  assumes i: "i < length a" and j: "j < length a" and n: "length a < 2 ^ 32"
  shows "materialise (a[i := materialise a ! j, j := materialise a ! i]) =
         (materialise a)[i := materialise a ! j, j := materialise a ! i]"
proof (rule nth_equalityI)
  show "length (materialise (a[i := materialise a ! j, j := materialise a ! i])) =
        length ((materialise a)[i := materialise a ! j, j := materialise a ! i])"
    by (simp add: length_materialise)
next
  fix k
  assume "k < length (materialise (a[i := materialise a ! j, j := materialise a ! i]))"
  then have k: "k < length a" by (simp add: length_materialise)
  have nz: "materialise a ! i \<noteq> 0" "materialise a ! j \<noteq> 0"
    using i j n by (simp_all add: materialise_nonzero)
  show "materialise (a[i := materialise a ! j, j := materialise a ! i]) ! k =
        (materialise a)[i := materialise a ! j, j := materialise a ! i] ! k"
    using k i j nz
    by (simp add: materialise_nth length_materialise nth_list_update del: of_nat_add of_nat_Suc)
qed

lemma no_init_loop_materialise:
  "i < length a \<Longrightarrow> length a < 2 ^ 32 \<Longrightarrow>
   (case no_init_loop i a seed of (b, s) \<Rightarrow> (materialise b, s)) =
   swap_loop mulberry32_index i (materialise a) seed"
proof (induction i arbitrary: a seed)
  case 0
  then show ?case by simp
next
  case (Suc i)
  obtain j s' where js: "mulberry32_index (Suc i + 1) seed = (j, s')"
    by (cases "mulberry32_index (Suc i + 1) seed")
  have "fst (mulberry32_index (Suc i + 1) seed) < Suc i + 1"
    by (rule mulberry32_index_less) simp
  then have j: "j < length a" using js Suc.prems by simp
  define b where "b = a[Suc i := materialise a ! j, j := materialise a ! Suc i]"
  have step: "no_init_loop (Suc i) a seed = no_init_loop i b s'"
    using js j Suc.prems(1) by (simp add: Let_def lazy_value b_def del: of_nat_add of_nat_Suc)
  have "materialise b = (materialise a)[Suc i := materialise a ! j, j := materialise a ! Suc i]"
    unfolding b_def using Suc.prems j by (intro materialise_swap) simp_all
  moreover have "(case no_init_loop i b s' of (c, s) \<Rightarrow> (materialise c, s)) =
      swap_loop mulberry32_index i (materialise b) s'"
    using Suc.prems by (intro Suc.IH) (simp_all add: b_def)
  ultimately show ?case
    using js step by (simp add: Let_def)
qed

lemma no_init_up_to_zeros:
  assumes "n < 2 ^ 32"
  shows "map_sum id (\<lambda>(a, s). (materialise a, s)) (AFB_x_AS_x_OPT_x_NO_INIT n seed) =
         AFB_x_AS_x_OPT n seed"
proof (cases n)
  case 0
  then show ?thesis
    by (simp add: AFB_x_AS_x_OPT_x_NO_INIT_def AFB_x_AS_x_OPT_def materialise_def)
next
  case (Suc m)
  have m: "materialise (replicate n 0) = map (\<lambda>i. word_of_nat (i + 1)) [0..<n]"
    by (simp add: materialise_def del: of_nat_add of_nat_Suc)
  have "(case no_init_loop (n - 1) (replicate n 0) seed of (b, s) \<Rightarrow> (materialise b, s)) =
        swap_loop mulberry32_index (n - 1) (materialise (replicate n 0)) seed"
    using assms Suc by (intro no_init_loop_materialise) simp_all
  then show ?thesis
    using assms by (simp add: AFB_x_AS_x_OPT_x_NO_INIT_def opt_result m)
qed

text \<open>
  C7. For \<open>n = 1\<close> the loop of either function runs zero times and draws nothing
  from the generator. \<open>AFB_x_AS_x_OPT(1)()\<close> returns the buffer \<open>[1]\<close>;
  \<open>AFB_x_AS_x_OPT_x_NO_INIT(1)()\<close> returns \<open>[0]\<close>, the zero the typed array was
  allocated with: index 0 is never the \<open>i\<close> of the loop and is filled only when a
  draw picks it as \<open>j\<close>.
\<close>

theorem singleton_shuffles:
  "AFB_x_AS_x_OPT 1 seed = Inr ([1], seed) \<and>
   AFB_x_AS_x_OPT_x_NO_INIT 1 seed = Inr ([0], seed)"
  by (simp add: AFB_x_AS_x_OPT_def AFB_x_AS_x_OPT_x_NO_INIT_def)

text \<open>
  C9. From the generator state 1 the first draw picks \<open>j = 1\<close> for \<open>i = 1\<close>. On the
  same draws \<open>AFB_x_AS_x_OPT(2)()\<close> returns \<open>[1, 2]\<close> and
  \<open>AFB_x_AS_x_OPT_x_NO_INIT(2)()\<close> returns \<open>[0, 2]\<close>: the buffers differ at
  index 0, which no draw picked.
\<close>

theorem no_init_differs:
  "AFB_x_AS_x_OPT 2 1 = Inr ([1, 2], 1831565814) \<and>
   AFB_x_AS_x_OPT_x_NO_INIT 2 1 = Inr ([0, 2], 1831565814)"
  by code_simp

section \<open>Properties of the array builders\<close>

text \<open>
  C6. \<open>arrayFillA(3)()\<close> returns \<open>[0, 1, 2]\<close>, the indices themselves, and
  \<open>arrayFillB(3)()\<close> returns \<open>[1, 2, 3]\<close>: the two builders do not return the same
  array, and \<open>arrayFillA\<close> does not return \<open>[1, ..., n]\<close>.
\<close>

theorem array_fills_differ:
  "arrayFillA 3 = Inr [Some 0, Some 1, Some 2] \<and>
   arrayFillB 3 = Inr [Some 1, Some 2, Some 3]"
  by code_simp

section \<open>Properties of the bucket strategy\<close>

text \<open>
  The first loop is right: whatever the draws, it adds each of the values \<open>1..n\<close>
  once to the contents of the memory, and in a memory that starts zeroed the values of
  every slot ascend.
\<close>

lemma contents_append: "contents (xs @ ys) = contents xs @ contents ys"
  by (simp add: contents_def)

lemma contents_update:
  assumes "r < length m"
  shows "mset (contents (m[r := y])) + mset (slot_values (m ! r)) =
         mset (contents m) + mset (slot_values y)"
proof -
  have m: "m = take r m @ m ! r # drop (Suc r) m"
    using assms by (simp add: id_take_nth_drop [symmetric])
  have u: "m[r := y] = take r m @ y # drop (Suc r) m"
    using assms by (rule upd_conv_take_nth_drop)
  have "contents m = contents (take r m) @ slot_values (m ! r) @ contents (drop (Suc r) m)"
    by (subst m) (simp add: contents_def)
  moreover have "contents (m[r := y]) =
      contents (take r m) @ slot_values y @ contents (drop (Suc r) m)"
    by (subst u) (simp add: contents_def)
  ultimately show ?thesis by simp
qed

lemma bucket_put_contents:
  assumes "v \<noteq> 0"
  shows "mset (contents (bucket_put m r v)) = mset (contents m) + {#v#}"
proof (cases "r < length m")
  case False
  have "contents (replicate k (Num 0)) = []" for k
    by (induction k) (simp_all add: contents_def)
  then show ?thesis
    using False assms by (simp add: bucket_put_def contents_append) (simp add: contents_def)
next
  case True
  show ?thesis
  proof (cases "m ! r")
    case (Num x)
    show ?thesis
    proof (cases "x = 0")
      case True
      then show ?thesis
        using contents_update [OF \<open>r < length m\<close>, of "Num v"] Num \<open>r < length m\<close> assms
        by (simp add: bucket_put_def)
    next
      case False
      then show ?thesis
        using contents_update [OF \<open>r < length m\<close>, of "Arr [x, v]"] Num \<open>r < length m\<close>
        by (simp add: bucket_put_def)
    qed
  next
    case (Arr xs)
    then show ?thesis
      using contents_update [OF \<open>r < length m\<close>, of "Arr (xs @ [v])"] \<open>r < length m\<close>
      by (simp add: bucket_put_def)
  qed
qed

lemma mset_set_one_to_Suc: "mset_set {1..Suc n} = mset_set {1..n} + {#Suc n#}"
proof -
  have "{1..Suc n} = insert (Suc n) {1..n}" by auto
  then show ?thesis by simp
qed

lemma distribute_contents:
  "mset (contents (fst (distribute random n m s))) = mset (contents m) + mset_set {1..n}"
proof (induction n)
  case 0
  then show ?case by (simp add: distribute_def)
next
  case (Suc n)
  obtain m' s' where d: "distribute random n m s = (m', s')"
    by (cases "distribute random n m s")
  obtain r s'' where r: "math_random_index random (length m') s' = (r, s'')"
    by (cases "math_random_index random (length m') s'")
  have "distribute random (Suc n) m s = (bucket_put m' r (n + 1), s'')"
    using d r by (simp add: distribute_def)
  then have "mset (contents (fst (distribute random (Suc n) m s))) =
      mset (contents m') + {#Suc n#}"
    by (simp add: bucket_put_contents)
  also have "mset (contents m') = mset (contents m) + mset_set {1..n}"
    using Suc.IH d by simp
  finally show ?case
    by (simp only: mset_set_one_to_Suc add.assoc)
qed

lemma zeroed_memory_contents:
  "mset (contents (fst (distribute random n (replicate k (Num 0)) s))) = mset_set {1..n}"
proof -
  have "contents (replicate k (Num 0)) = []"
    by (induction k) (simp_all add: contents_def)
  then show ?thesis by (simp add: distribute_contents)
qed

lemma ascending_below_update:
  assumes "ascending_below k m"
    and "sorted_wrt (<) (slot_values y)" and "\<forall>v \<in> set (slot_values y). v \<le> Suc k"
  shows "ascending_below (Suc k) (m[r := y])"
proof -
  have "x \<in> set m \<or> x = y" if "x \<in> set (m[r := y])" for x
    using that set_update_subset_insert [of m r y] by auto
  then show ?thesis
    using assms by (fastforce simp: ascending_below_def)
qed

lemma bucket_put_ascending:
  assumes "ascending_below k m"
  shows "ascending_below (Suc k) (bucket_put m r (Suc k))"
proof (cases "r < length m")
  case False
  then show ?thesis
    using assms by (fastforce simp: bucket_put_def ascending_below_def)
next
  case True
  then have mem: "m ! r \<in> set m" by simp
  show ?thesis
  proof (cases "m ! r")
    case (Num x)
    then have "x \<noteq> 0 \<longrightarrow> x \<le> k"
      using assms mem by (auto simp: ascending_below_def)
    then show ?thesis
      using True Num assms by (auto simp: bucket_put_def intro!: ascending_below_update)
  next
    case (Arr xs)
    then have "sorted_wrt (<) xs \<and> (\<forall>v \<in> set xs. v \<le> k)"
      using assms mem by (auto simp: ascending_below_def)
    then have "sorted_wrt (<) (xs @ [Suc k]) \<and> (\<forall>v \<in> set (xs @ [Suc k]). v \<le> Suc k)"
      by (auto simp: sorted_wrt_append)
    then show ?thesis
      using True Arr assms by (simp add: bucket_put_def ascending_below_update)
  qed
qed

lemma distribute_ascending:
  "ascending_below 0 m \<Longrightarrow> ascending_below n (fst (distribute random n m s))"
proof (induction n)
  case 0
  then show ?case by (simp add: distribute_def)
next
  case (Suc n)
  obtain m' s' where d: "distribute random n m s = (m', s')"
    by (cases "distribute random n m s")
  obtain r s'' where r: "math_random_index random (length m') s' = (r, s'')"
    by (cases "math_random_index random (length m') s'")
  have "distribute random (Suc n) m s = (bucket_put m' r (Suc n), s'')"
    using d r by (simp add: distribute_def)
  moreover have "ascending_below n m'"
    using Suc d by simp
  ultimately show ?case
    by (simp add: bucket_put_ascending)
qed

lemma zeroed_memory_ascending:
  "x \<in> set (fst (distribute random n (replicate k (Num 0)) s)) \<Longrightarrow>
   sorted_wrt (<) (slot_values x)"
proof -
  have "ascending_below 0 (replicate k (Num 0))"
    by (simp add: ascending_below_def)
  then have "ascending_below n (fst (distribute random n (replicate k (Num 0)) s))"
    by (rule distribute_ascending)
  then show "x \<in> set (fst (distribute random n (replicate k (Num 0)) s)) \<Longrightarrow>
      sorted_wrt (<) (slot_values x)"
    by (simp add: ascending_below_def)
qed

text \<open>
  C2. Two values in one slot, and a slot of index 1 that holds no array: with a zeroed
  memory of two slots, \<open>n = 2\<close> and both draws 0, the values 1 and 2 share slot 0
  and the scan pushes their array as one element, so that the buffer returned is
  \<open>[[1, 2]]\<close>, of length 1. And a slot of index 1 that holds an array: with a
  zeroed memory of three slots, \<open>n = 3\<close> and the draws 0.4, 0.4, 0 (the double 0.4
  is \<open>7205759403792794 / 2 ^ 54\<close>), the values 1 and 2 share slot 1, the value 3 is
  alone in slot 0 and the scan pushes nothing for it, so that the buffer returned is
  \<open>[1, 2]\<close>. Neither is a permutation of \<open>1..n\<close>, though the slots hold each
  value once.
\<close>

theorem bucket_scan_not_permutation:
  "BucketRadixShuffle replay [Num 0, Num 0] 2 [(0, 0), (0, 0)] =
     ([Arr [1, 2]], [Arr [1, 2], Num 0], []) \<and>
   BucketRadixShuffle replay [Num 0, Num 0, Num 0] 3
       [(7205759403792794, 54), (7205759403792794, 54), (0, 0)] =
     ([Num 1, Num 2], [Num 3, Arr [1, 2], Num 0], [])"
  by code_simp

lemma appears_before_split: "appears_before u v (as @ u # bs @ v # cs)"
  by (induction as) simp_all

lemma slot_at_bucket_put:
  "slot_at (bucket_put m r v) r' = (if r' = r then put_slot (slot_at m r) v else slot_at m r')"
proof (cases "r < length m")
  case True
  then show ?thesis
    by (cases "m ! r") (auto simp: bucket_put_def slot_at_def)
next
  case False
  then show ?thesis
    by (auto simp: bucket_put_def slot_at_def nth_append)
qed

lemma slot_values_put_slot: "v \<noteq> 0 \<Longrightarrow> slot_values (put_slot x v) = slot_values x @ [v]"
  by (cases x) simp_all

lemma trace_snd:
  "snd (fold (\<lambda>i (rs, m, s). let (r, s') = math_random_index random (length m) s
                              in (rs @ [r], bucket_put m r (i + 1), s')) xs (rs, m, s)) =
   fold (\<lambda>i (m, s). let (r, s') = math_random_index random (length m) s
                       in (bucket_put m r (i + 1), s')) xs (m, s)"
proof (induction xs arbitrary: rs m s)
  case Nil
  then show ?case by simp
next
  case (Cons x xs)
  obtain r s' where r: "math_random_index random (length m) s = (r, s')"
    by (cases "math_random_index random (length m) s")
  show ?case
    using Cons.IH [of "rs @ [r]" "bucket_put m r (x + 1)" s'] by (simp add: r)
qed

lemma distribute_Suc:
  assumes "distribute random n m s = (m', s')"
    and "math_random_index random (length m') s' = (r, s'')"
  shows "distribute random (Suc n) m s = (bucket_put m' r (n + 1), s'')"
  using assms by (simp add: distribute_def)

lemma landing_slots_Suc:
  assumes "distribute random n m s = (m', s')"
    and "math_random_index random (length m') s' = (r, s'')"
  shows "landing_slots random (Suc n) m s = landing_slots random n m s @ [r]"
proof -
  define F where "F = (\<lambda>i (rs :: nat list, m, s).
      let (r, s') = math_random_index random (length m) s
      in (rs @ [r], bucket_put m r (i + 1), s'))"
  obtain rs where t: "fold F [0..<n] ([], m, s) = (rs, m', s')"
    using trace_snd [of random "[0..<n]" "[]" m s] assms(1)
    by (cases "fold F [0..<n] ([], m, s)") (simp add: F_def distribute_def)
  have "landing_slots random n m s = rs"
    using t by (simp add: landing_slots_def F_def)
  moreover have "landing_slots random (Suc n) m s = rs @ [r]"
    using t assms(2) by (simp add: landing_slots_def F_def [symmetric]) (simp add: F_def)
  ultimately show ?thesis by simp
qed

lemma length_landing_slots: "length (landing_slots random n m s) = n"
proof (induction n)
  case 0
  then show ?case by (simp add: landing_slots_def)
next
  case (Suc n)
  obtain m' s' where d: "distribute random n m s = (m', s')"
    by (cases "distribute random n m s")
  obtain r s'' where r: "math_random_index random (length m') s' = (r, s'')"
    by (cases "math_random_index random (length m') s'")
  show ?case
    using Suc landing_slots_Suc [OF d r] by simp
qed

lemma slot_history:
  "slot_values (slot_at (fst (distribute random n m s)) r) =
     slot_values (slot_at m r) @
     map Suc (filter (\<lambda>i. landing_slots random n m s ! i = r) [0..<n])"
proof (induction n)
  case 0
  then show ?case by (simp add: distribute_def)
next
  case (Suc n)
  obtain m' s' where d: "distribute random n m s = (m', s')"
    by (cases "distribute random n m s")
  obtain q s'' where q: "math_random_index random (length m') s' = (q, s'')"
    by (cases "math_random_index random (length m') s'")
  have ls: "landing_slots random (Suc n) m s = landing_slots random n m s @ [q]"
    by (rule landing_slots_Suc [OF d q])
  have len: "length (landing_slots random n m s) = n"
    by (rule length_landing_slots)
  have old: "filter (\<lambda>i. landing_slots random (Suc n) m s ! i = r) [0..<n] =
      filter (\<lambda>i. landing_slots random n m s ! i = r) [0..<n]"
    by (rule filter_cong) (simp_all add: ls nth_append len)
  have new: "landing_slots random (Suc n) m s ! n = q"
    by (simp add: ls nth_append len)
  have ih: "slot_values (slot_at m' r) =
      slot_values (slot_at m r) @
      map Suc (filter (\<lambda>i. landing_slots random n m s ! i = r) [0..<n])"
    using Suc d by simp
  have step: "fst (distribute random (Suc n) m s) = bucket_put m' q (Suc n)"
    using distribute_Suc [OF d q] by simp
  have upt: "[0..<Suc n] = [0..<n] @ [n]"
    by simp
  show ?case
  proof (cases "r = q")
    case True
    have "slot_values (slot_at (bucket_put m' q (Suc n)) r) = slot_values (slot_at m' r) @ [Suc n]"
      using True by (simp add: slot_at_bucket_put slot_values_put_slot)
    moreover have "filter (\<lambda>i. landing_slots random (Suc n) m s ! i = r) [0..<Suc n] =
        filter (\<lambda>i. landing_slots random n m s ! i = r) [0..<n] @ [n]"
      unfolding upt filter_append old using True new by simp
    ultimately show ?thesis
      unfolding step ih by simp
  next
    case False
    have "slot_values (slot_at (bucket_put m' q (Suc n)) r) = slot_values (slot_at m' r)"
      using False by (simp add: slot_at_bucket_put)
    moreover have "filter (\<lambda>i. landing_slots random (Suc n) m s ! i = r) [0..<Suc n] =
        filter (\<lambda>i. landing_slots random n m s ! i = r) [0..<n]"
      unfolding upt filter_append old using False new by simp
    ultimately show ?thesis
      unfolding step ih by simp
  qed
qed

lemma filter_two:
  assumes "i < j" and "j < n" and "P i" and "P j"
  shows "\<exists>as bs cs. filter P [0..<n] = as @ i # bs @ j # cs"
proof -
  have "[0..<n] = [0..<i] @ i # [Suc i..<j] @ j # [Suc j..<n]"
    using assms(1,2)
    by (metis Suc_leI less_imp_le_nat less_trans upt_add_eq_append upt_conv_Cons
        le_add_diff_inverse zero_le)
  then have "filter P [0..<n] =
      filter P [0..<i] @ i # filter P [Suc i..<j] @ j # filter P [Suc j..<n]"
    using assms(3,4) by simp
  then show ?thesis by blast
qed

lemma scan_values:
  "buffer_values (fold (collect_slot b) m a) =
     buffer_values a @
     concat (map (\<lambda>x. if truthy x
                       then (if b then (case x of Arr vs \<Rightarrow> vs | Num v \<Rightarrow> [])
                             else elem_values x)
                       else []) m)"
proof (induction m arbitrary: a)
  case Nil
  then show ?case by simp
next
  case (Cons x m)
  have "buffer_values (map Num vs) = vs" for vs
    by (induction vs) (simp_all add: buffer_values_def)
  then have "buffer_values (collect_slot b x a) =
      buffer_values a @ (if truthy x
                       then (if b then (case x of Arr vs \<Rightarrow> vs | Num v \<Rightarrow> [])
                             else elem_values x)
                       else [])"
    by (cases x) (simp_all add: collect_slot_def buffer_values_def)
  then show ?case
    using Cons.IH [of "collect_slot b x a"] by simp
qed

text \<open>
  C8. For every memory, every \<open>n\<close> and every run of the draws: when two values
  \<open>u < v\<close> (here \<open>i + 1\<close> and \<open>j + 1\<close>) land in the same slot, \<open>u\<close> is written
  before \<open>v\<close> in the buffer returned. The two values share an array of the memory,
  which the scan writes out whole or element by element; the buffer is read in the
  order it was written, a nested array in its place.
\<close>

theorem colliding_values_ascend:
  assumes "i < j" and "j < n"
    and "landing_slots random n m s ! i = landing_slots random n m s ! j"
  shows "appears_before (i + 1) (j + 1)
           (buffer_values (fst (BucketRadixShuffle random m n s)))"
proof -
  obtain m' s' where d: "distribute random n m s = (m', s')"
    by (cases "distribute random n m s")
  define r where "r = landing_slots random n m s ! j"
  have ri: "landing_slots random n m s ! i = r" and rj: "landing_slots random n m s ! j = r"
    using assms(3) by (simp_all add: r_def)
  have "\<exists>as bs cs.
      filter (\<lambda>k. landing_slots random n m s ! k = r) [0..<n] = as @ i # bs @ j # cs"
    by (rule filter_two [where P = "\<lambda>k. landing_slots random n m s ! k = r",
          OF assms(1) assms(2) ri rj])
  then obtain as bs cs where
    "filter (\<lambda>k. landing_slots random n m s ! k = r) [0..<n] = as @ i # bs @ j # cs"
    by blast
  then have "slot_values (slot_at m' r) =
      (slot_values (slot_at m r) @ map Suc as) @ Suc i # map Suc bs @ Suc j # map Suc cs"
    using slot_history [of random n m s r] d by simp
  then obtain ps qs where sv: "slot_values (slot_at m' r) = ps @ Suc i # map Suc bs @ Suc j # qs"
    by blast
  obtain xs where arr: "slot_at m' r = Arr xs"
    using sv by (cases "slot_at m' r") (auto split: if_splits simp: Cons_eq_append_conv append_eq_Cons_conv)
  then have xs: "xs = ps @ Suc i # map Suc bs @ Suc j # qs"
    using sv by simp
  have r: "r < length m'" and mr: "m' ! r = Arr xs"
    using arr by (auto simp: slot_at_def split: if_splits)
  have split: "m' = take r m' @ Arr xs # drop (Suc r) m'"
    by (metis id_take_nth_drop r mr)
  define g where "g = (\<lambda>x. if truthy x
                       then (if m1_is_array m' then (case x of Arr vs \<Rightarrow> vs | Num v \<Rightarrow> [])
                             else elem_values x)
                       else [])"
  have "buffer_values (fst (BucketRadixShuffle random m n s)) = concat (map g m')"
    using scan_values [of "m1_is_array m'" m' "[]"]
    by (simp add: BucketRadixShuffle_def d g_def buffer_values_def)
  also have "\<dots> = concat (map g (take r m')) @ xs @ concat (map g (drop (Suc r) m'))"
    by (subst split) (simp add: g_def)
  also have "\<dots> = (concat (map g (take r m')) @ ps) @ Suc i # map Suc bs @ Suc j #
      (qs @ concat (map g (drop (Suc r) m')))"
    by (simp add: xs)
  finally show ?thesis
    by (simp only: appears_before_split Suc_eq_plus1 [symmetric])
qed

lemma collision_example:
  "landing_slots replay 3 [Num 0, Num 0, Num 0] [(0, 0), (0, 0), (6305039478318694, 53)] =
     [0, 0, 2] \<and>
   buffer_values (fst (BucketRadixShuffle replay [Num 0, Num 0, Num 0] 3
       [(0, 0), (0, 0), (6305039478318694, 53)])) = [1, 2, 3]"
  by code_simp

theorem colliding_values_ascend_witness:
  "(0::nat) < 1 \<and> (1::nat) < 3 \<and>
   landing_slots replay 3 [Num 0, Num 0, Num 0] [(0, 0), (0, 0), (6305039478318694, 53)] =
     [0, 0, 2] \<and>
   buffer_values (fst (BucketRadixShuffle replay [Num 0, Num 0, Num 0] 3
       [(0, 0), (0, 0), (6305039478318694, 53)])) = [1, 2, 3] \<and>
   appears_before 1 2
     (buffer_values (fst (BucketRadixShuffle replay [Num 0, Num 0, Num 0] 3
       [(0, 0), (0, 0), (6305039478318694, 53)])))"
  using colliding_values_ascend [of 0 1 3 replay "[Num 0, Num 0, Num 0]"
      "[(0, 0), (0, 0), (6305039478318694, 53)]"] collision_example
  by simp

section \<open>Properties of the command line\<close>

lemma positive_integer_guard:
  "positive_integer n \<longleftrightarrow> isInteger n \<and> \<not> less_than_one n"
proof (cases n)
  case (Fin x)
  have "(\<exists>k::nat. 1 \<le> k \<and> x = real k) \<longleftrightarrow> x = of_int \<lfloor>x\<rfloor> \<and> \<not> x < 1"
  proof
    assume "\<exists>k::nat. 1 \<le> k \<and> x = real k"
    then obtain k :: nat where k: "1 \<le> k" "x = real k" by blast
    then show "x = of_int \<lfloor>x\<rfloor> \<and> \<not> x < 1" by simp
  next
    assume a: "x = of_int \<lfloor>x\<rfloor> \<and> \<not> x < 1"
    then have fl: "1 \<le> \<lfloor>x\<rfloor>" by linarith
    then have "1 \<le> nat \<lfloor>x\<rfloor>" by linarith
    moreover have "real (nat \<lfloor>x\<rfloor>) = of_int \<lfloor>x\<rfloor>"
      using fl by (simp add: of_nat_nat)
    ultimately have "1 \<le> nat \<lfloor>x\<rfloor> \<and> x = real (nat \<lfloor>x\<rfloor>)"
      using a by presburger
    then show "\<exists>k::nat. 1 \<le> k \<and> x = real k" by (rule exI)
  qed
  then show ?thesis by (simp add: Fin positive_integer_def)
qed (simp_all add: positive_integer_def)

text \<open>
  C3 (as amended). The check of the size is made by \<open>main\<close>. Whatever the conversion
  \<open>Number\<close> makes of the argument: when the number is not a positive integer (zero,
  negative, not integral, an infinity, not-a-number), \<open>main\<close> writes
  \<open>n must be a positive integer (> 0).\<close> to the error stream (for the empty argument
  \<open>Enter a number n as a command line argument.\<close>) and ends the process with
  status 1, and does nothing else: no typed array is allocated, and the number is not
  rounded or replaced to go on.
\<close>

theorem invalid_size_rejected:
  assumes "\<not> positive_integer (Number arg)"
  shows "main Number (Some arg) seed =
     [ConsoleError (if arg = [] then ''Enter a number n as a command line argument.''
                    else ''n must be a positive integer (> 0).''),
      Exit 1]"
  using assms by (simp add: main_def positive_integer_guard Let_def)

theorem invalid_size_rejected_witness:
  "\<not> positive_integer (Fin (37 / 10)) \<and>
   main (\<lambda>t. Fin (37 / 10)) (Some ''3.7'') 42 =
     [ConsoleError ''n must be a positive integer (> 0).'', Exit 1] \<and>
   \<not> positive_integer (Fin 0) \<and>
   main (\<lambda>t. Fin 0) (Some ''0'') 42 =
     [ConsoleError ''n must be a positive integer (> 0).'', Exit 1] \<and>
   \<not> positive_integer (Fin (- 5)) \<and>
   main (\<lambda>t. Fin (- 5)) (Some ''-5'') 42 =
     [ConsoleError ''n must be a positive integer (> 0).'', Exit 1] \<and>
   \<not> positive_integer NaN \<and>
   main (\<lambda>t. NaN) (Some ''abc'') 42 =
     [ConsoleError ''n must be a positive integer (> 0).'', Exit 1] \<and>
   main (\<lambda>t. Fin 0) (Some '''') 42 =
     [ConsoleError ''Enter a number n as a command line argument.'', Exit 1]"
  using invalid_size_rejected [of "\<lambda>t. Fin (37 / 10)" "''3.7''" 42]
    invalid_size_rejected [of "\<lambda>t. Fin 0" "''0''" 42]
    invalid_size_rejected [of "\<lambda>t. Fin (- 5)" "''-5''" 42]
    invalid_size_rejected [of "\<lambda>t. NaN" "''abc''" 42]
    invalid_size_rejected [of "\<lambda>t. Fin 0" "''''" 42]
  by (simp add: positive_integer_guard)

text \<open>
  C3 as stated fails on the strategy itself: \<open>AFB_x_AS_x_OPT\<close> makes no check of its
  size. For the size 0 it allocates a typed array of length 0 and returns it.
\<close>

theorem shuffle_of_size_zero: "AFB_x_AS_x_OPT 0 42 = Inr ([], 42)"
  by (simp add: AFB_x_AS_x_OPT_def)

lemma valid_size_allocates:
  assumes "arg \<noteq> []" and "Number arg = Fin (real k)" and "1 \<le> k"
  shows "hd (main Number (Some arg) seed) = NewUint32Array k"
  using assms by (simp add: main_def Let_def)

section \<open>Determinism\<close>

lemma mulberry32_value_inj:
  assumes "fst (mulberry32 s1) = fst (mulberry32 s2)"
  shows "fst (mulberry32_bits s1) = fst (mulberry32_bits s2)"
proof -
  obtain w1 t1 where b1: "mulberry32_bits s1 = (w1, t1)" by (cases "mulberry32_bits s1")
  obtain w2 t2 where b2: "mulberry32_bits s2 = (w2, t2)" by (cases "mulberry32_bits s2")
  have "(unsigned w1 :: real) = unsigned w2"
    using assms by (simp add: mulberry32_def b1 b2)
  then have "w1 = w2"
    by (simp add: word_eq_iff_unsigned [where ?'a = real])
  then show ?thesis by (simp add: b1 b2)
qed

lemma swap_loop_same_outputs:
  "mulberry32_outputs i s1 = mulberry32_outputs i s2 \<Longrightarrow>
   fst (swap_loop mulberry32_index i a s1) = fst (swap_loop mulberry32_index i a s2)"
proof (induction i arbitrary: a s1 s2)
  case 0
  then show ?case by simp
next
  case (Suc i)
  obtain w1 t1 where b1: "mulberry32_bits s1 = (w1, t1)" by (cases "mulberry32_bits s1")
  obtain w2 t2 where b2: "mulberry32_bits s2 = (w2, t2)" by (cases "mulberry32_bits s2")
  have heads: "fst (mulberry32 s1) = fst (mulberry32 s2)"
    and tails: "mulberry32_outputs i t1 = mulberry32_outputs i t2"
    using Suc.prems by (simp_all add: mulberry32_def b1 b2)
  have "w1 = w2"
    using mulberry32_value_inj [OF heads] by (simp add: b1 b2)
  then show ?case
    using Suc.IH [OF tails] by (simp add: mulberry32_index_def b1 b2 Let_def)
qed

lemma swap_loop_state:
  "snd (swap_loop mulberry32_index i a s) = mulberry32_state i s"
proof (induction i arbitrary: a s)
  case 0
  then show ?case by simp
next
  case (Suc i)
  obtain w t where b: "mulberry32_bits s = (w, t)" by (cases "mulberry32_bits s")
  have "snd (mulberry32 s) = t" and "snd (mulberry32_index (Suc i + 1) s) = t"
    by (simp_all add: mulberry32_def mulberry32_index_def b)
  then show ?case
    using Suc.IH by (simp add: mulberry32_index_def b Let_def)
qed

lemma same_draws_same_buffer:
  assumes "mulberry32_outputs (n - 1) s1 = mulberry32_outputs (n - 1) s2"
  shows "map_sum id fst (AFB_x_AS_x_OPT n s1) = map_sum id fst (AFB_x_AS_x_OPT n s2)"
proof -
  define a0 :: "u32 list"
    where "a0 = fold (\<lambda>i a. a[i := word_of_nat (i + 1)]) [0..<n] (replicate n 0)"
  have "fst (swap_loop mulberry32_index (n - 1) a0 s1) =
        fst (swap_loop mulberry32_index (n - 1) a0 s2)"
    using assms by (rule swap_loop_same_outputs)
  then show ?thesis
    unfolding AFB_x_AS_x_OPT_def Let_def a0_def [symmetric] by simp
qed

lemma drawn_values:
  "drop d (mulberry32_outputs (d + k) seed) = mulberry32_outputs k (mulberry32_state d seed)"
  by (simp add: mulberry32_outputs_append length_mulberry32_outputs)

text \<open>
  C5 (as amended). \<open>AFB_x_AS_x_OPT\<close> has no seed of its own: it draws from the one
  generator of the process. In a process whose generator was made with the seed
  \<open>seed1\<close> and has been called \<open>d1\<close> times, a run of size \<open>n\<close> draws the values
  number \<open>d1 + 1\<close> to \<open>d1 + n - 1\<close> of that seed's sequence and leaves the generator
  called \<open>d1 + n - 1\<close> times; and the buffer depends on nothing but the values drawn:
  two runs that draw the same values return the same buffer. So the buffer is
  determined by the seed, the number of earlier calls and \<open>n\<close>.
\<close>

theorem shuffle_determined_by_draws:
  "(drop d1 (mulberry32_outputs (d1 + (n - 1)) seed1) =
      drop d2 (mulberry32_outputs (d2 + (n - 1)) seed2) \<longrightarrow>
    map_sum id fst (AFB_x_AS_x_OPT n (mulberry32_state d1 seed1)) =
      map_sum id fst (AFB_x_AS_x_OPT n (mulberry32_state d2 seed2))) \<and>
   (n \<le> 2251799813685247 \<longrightarrow>
    map_sum id snd (AFB_x_AS_x_OPT n (mulberry32_state d1 seed1)) =
      Inr (mulberry32_state (d1 + (n - 1)) seed1))"
proof -
  have state_add: "mulberry32_state (d + k) seed = mulberry32_state k (mulberry32_state d seed)"
    for d k seed
    by (induction d arbitrary: seed) simp_all
  have "map_sum id snd (AFB_x_AS_x_OPT n (mulberry32_state d1 seed1)) =
      Inr (mulberry32_state (d1 + (n - 1)) seed1)" if "n \<le> 2251799813685247"
    using that by (simp add: AFB_x_AS_x_OPT_def Let_def swap_loop_state state_add)
  then show ?thesis
    using same_draws_same_buffer
      [of n "mulberry32_state d1 seed1" "mulberry32_state d2 seed2"]
    by (simp add: drawn_values)
qed

lemma draws_after_first_shuffle:
  "mulberry32_index 3 3663131668 = (2, 5494697481)"
  "mulberry32_index 2 5494697481 = (1, 7326263294)"
  by (simp_all add: mulberry32_index_def mulberry32_bits_def dbl_round_def imul_def)

lemma mulberry32_state_two: "mulberry32_state 2 42 = 3663131668"
  using mulberry32_state_exact [of 42 2] by simp

lemma low_bits_42: "(word_of_nat 4294967338 :: 32 word) = word_of_nat 42"
  by (simp add: word_eq_iff_unsigned [where ?'a = nat] take_bit_eq_mod)

lemma same_low_bits_same_draws:
  "mulberry32_outputs 2 42 = mulberry32_outputs 2 4294967338"
proof -
  have "mulberry32_outputs 2 42 = mulberry32_u32_outputs 2 (word_of_nat 42)"
    by (rule mulberry32_outputs_u32) simp
  moreover have "mulberry32_outputs 2 4294967338 =
      mulberry32_u32_outputs 2 (word_of_nat 4294967338)"
    by (rule mulberry32_outputs_u32) simp
  ultimately show ?thesis by (simp only: low_bits_42)
qed

theorem shuffle_determined_by_draws_witness:
  "drop 0 (mulberry32_outputs (0 + (3 - 1)) 42) =
     drop 0 (mulberry32_outputs (0 + (3 - 1)) 4294967338) \<and>
   map_sum id fst (AFB_x_AS_x_OPT 3 (mulberry32_state 0 42)) =
     map_sum id fst (AFB_x_AS_x_OPT 3 (mulberry32_state 0 4294967338)) \<and>
   map_sum id fst (AFB_x_AS_x_OPT 3 (mulberry32_state 0 42)) = Inr [3, 1, 2] \<and>
   (3::nat) \<le> 2251799813685247 \<and>
   map_sum id snd (AFB_x_AS_x_OPT 3 (mulberry32_state 0 42)) =
     Inr (mulberry32_state (0 + (3 - 1)) 42) \<and>
   mulberry32_state (0 + (3 - 1)) 42 = 3663131668"
proof -
  have n: "(0::nat) + (3 - 1) = 2"
    by simp
  have s: "mulberry32_state 0 42 = 42" "mulberry32_state 0 4294967338 = 4294967338"
    by simp_all
  have le: "(3::nat) \<le> 2251799813685247"
    by simp
  have run: "AFB_x_AS_x_OPT 3 42 = Inr ([3, 1, 2], 3663131668)"
    by (rule conjunct1 [OF shuffles_of_three])
  have buf: "map_sum id fst (AFB_x_AS_x_OPT 3 42) = Inr [3, 1, 2]"
    by (simp only: run map_sum.simps fst_conv id_apply)
  note t = shuffle_determined_by_draws [of 0 3 42 0 4294967338, unfolded n s drop_0]
  have same: "map_sum id fst (AFB_x_AS_x_OPT 3 42) =
      map_sum id fst (AFB_x_AS_x_OPT 3 4294967338)"
    using t same_low_bits_same_draws by (simp only: simp_thms)
  have state: "map_sum id snd (AFB_x_AS_x_OPT 3 42) = Inr (mulberry32_state 2 42)"
    using t le by (simp only: simp_thms)
  show ?thesis
    unfolding n s drop_0
    using same_low_bits_same_draws same buf le state mulberry32_state_two
    by (simp only: simp_thms)
qed

text \<open>
  C5 as stated fails: two runs of \<open>AFB_x_AS_x_OPT\<close> with the same seed and the same
  size need not return the same buffer. In a process seeded with 42 the first run of
  size 3 returns \<open>[3, 1, 2]\<close> and leaves the generator in the state \<open>3663131668\<close>,
  from which the second run of size 3 returns \<open>[1, 2, 3]\<close>.
\<close>

theorem successive_shuffles_differ:
  "AFB_x_AS_x_OPT 3 42 = Inr ([3, 1, 2], 3663131668) \<and>
   AFB_x_AS_x_OPT 3 3663131668 = Inr ([1, 2, 3], 7326263294)"
  by (simp add: opt_result upt_conv_Cons swap_loop_numeral swap_loop_one
      draws_from_42 draws_after_first_shuffle del: swap_loop.simps(2))

section \<open>Properties of the benchmark harness\<close>

lemma throughput_per_second: "times_1000 (js_divide x ms) = js_divide x (ms / 1000)"
  by (simp add: js_divide_def)

text \<open>
  C10. \<open>measure\<close> runs the thunk once: the world it leaves is the one a single
  call of the thunk leaves. The elapsed time it reports is the clock after that call
  minus the clock before it, in milliseconds, and the throughput it reports is the
  count \<open>n\<close> divided by that elapsed time in seconds (with JavaScript's division
  when the elapsed time is zero).
\<close>

theorem measure_single_shot:
  "snd (measure_js performance_now toLocaleString args w) = args_f args w \<and>
   fst (measure_js performance_now toLocaleString args w) =
     [padStart 32 CHR '' '' (args_name args),
      padStart 24 CHR '' ''
        (toLocaleString (Some 2) (Some 2)
           (Fin (performance_now (args_f args w) - performance_now w)) @ '' ms''),
      padStart 24 CHR '' ''
        (toLocaleString None (Some 0)
           (js_divide (args_n args)
              ((performance_now (args_f args w) - performance_now w) / 1000)) @ '' ops/s'')]"
  by (simp add: measure_js_def throughput_per_second Let_def)

theorem measure_single_shot_witness:
  "measure_js snd
     (\<lambda>lo hi v. case v of Fin x \<Rightarrow> (if x = 4000 then ''4,000'' else ''250.00'') | _ \<Rightarrow> ''?'')
     \<lparr>args_f = (\<lambda>(calls, t). (Suc calls, t + 250)), args_n = 1000, args_name = ''fill''\<rparr>
     (0::nat, 100::real) =
   ([padStart 32 CHR '' '' ''fill'', padStart 24 CHR '' '' ''250.00 ms'',
     padStart 24 CHR '' '' ''4,000 ops/s''],
    (1, 350))"
  using measure_single_shot [of snd
      "\<lambda>lo hi v. case v of Fin x \<Rightarrow> (if x = 4000 then ''4,000'' else ''250.00'') | _ \<Rightarrow> ''?''"
      "\<lparr>args_f = (\<lambda>(calls, t). (Suc calls, t + 250)), args_n = 1000, args_name = ''fill''\<rparr>"
      "(0::nat, 100::real)"]
  by (simp add: js_divide_def prod_eq_iff)

end
